theory Spec2Isabelle
  imports Main "HOL-Library.Word" "HOL-Library.Signed_Division"
begin

unbundle bit_operations_syntax

section \<open>The RDMA byte-stream connection of Collage (rdmaConnection.cpp)\<close>

text \<open>
  A shallow embedding of \<^verbatim>\<open>co::RDMAConnection\<close>, the source of which is the third
  document of \<^verbatim>\<open>src/libs/sequel/detail/config.cpp\<close> (lines 222 to 2929). Member
  functions keep their names without the leading underscore (\<^verbatim>\<open>_close\<close> is
  \<open>close_impl\<close>, since \<open>close\<close> is the public entry point, and \<^verbatim>\<open>write\<close> is
  \<open>write_conn\<close>). The non-Windows branches of
  the \<^verbatim>\<open>#ifdef _WIN32\<close> blocks are the ones modelled. Everything the code asks
  of the RDMA, epoll and libc libraries is an explicit input (the types \<open>tick\<close> and
  \<open>hs_env\<close> below); everything it tells them is appended to the \<open>trace\<close> of the
  connection. Logging (\<^verbatim>\<open>EQERROR\<close>, \<^verbatim>\<open>EQWARN\<close>, ...), the \<^verbatim>\<open>_stats\<close> counters, the
  address strings and the free list of the message buffer pool are left out: no
  function modelled here branches on them. \<^verbatim>\<open>EQASSERT\<close> compiles to nothing in a
  release build and is not a branch of the model.
\<close>

subsection \<open>Machine integers and constants\<close>

type_synonym u8 = "8 word"
type_synonym u16 = "16 word"
type_synonym u32 = "32 word"
type_synonym u64 = "64 word"
type_synonym i32 = "32 word" \<comment> \<open>\<^verbatim>\<open>int32_t\<close>: read with \<open>sint\<close>\<close>

definition RDMA_PROTOCOL_MAGIC :: u8 where
  "RDMA_PROTOCOL_MAGIC = 0xC0"

definition RDMA_PROTOCOL_VERSION :: u8 where
  "RDMA_PROTOCOL_VERSION = 0x03"

text \<open>\<^verbatim>\<open>MAX_BS = (( 2 << ( 28 - 1 )) - 1 )\<close> and \<^verbatim>\<open>MAX_FC = (( 2 << ( 4 - 1 )) - 1 )\<close>.\<close>

definition MAX_BS :: u64 where
  "MAX_BS = push_bit (28 - 1) 2 - 1"

definition MAX_FC :: u16 where
  "MAX_FC = push_bit (4 - 1) 2 - 1"

text \<open>
  \<^verbatim>\<open>htonl\<close> and \<^verbatim>\<open>ntohl\<close> on a little-endian host (x86, the only hosts of the epoll
  and Windows builds): the four bytes of the word in reverse order.
\<close>

definition htonl :: "u32 \<Rightarrow> u32" where
  "htonl w = push_bit 24 (take_bit 8 w) OR push_bit 16 (take_bit 8 (drop_bit 8 w))
               OR push_bit 8 (take_bit 8 (drop_bit 16 w)) OR drop_bit 24 w"

definition ntohl :: "u32 \<Rightarrow> u32" where
  "ntohl w = htonl w"

subsection \<open>Wire data\<close>

text \<open>
  \<^verbatim>\<open>struct RDMAConnParamData\<close> is declared in rdmaConnection.h, which is not part of
  the sources at hand; its fields are the ones the code reads and writes
  (\<^verbatim>\<open>_cpd.magic\<close>, \<^verbatim>\<open>_cpd.version\<close>, \<^verbatim>\<open>_cpd.depth\<close>), with the widths of the
  specification (u8, u8, i32).
\<close>

record RDMAConnParamData =
  magic :: u8
  version :: u8
  cpd_depth :: i32

definition zero_cpd :: RDMAConnParamData where
  "zero_cpd = \<lparr>magic = 0, version = 0, cpd_depth = 0\<rparr>"

record RDMASetupPayload =
  setup_rbase :: u64
  setup_rlen :: u64
  setup_rkey :: u64

record RDMAFCPayload =
  bytes_received :: u32
  writes_received :: u32

text \<open>
  \<^verbatim>\<open>enum OpCode { SETUP = 1 << 0, FC = 1 << 1 }\<close>; a received opcode is whatever
  the peer wrote, so it is kept as a number. The payload is a C union: the two
  fields below are the two readings of its bytes, of which the code takes the one
  its opcode names.
\<close>

definition SETUP :: u32 where
  "SETUP = push_bit 0 1"

definition FC :: u32 where
  "FC = push_bit 1 1"

record RDMAMessage =
  opcode :: u32
  length_msg :: u8
  payload_setup :: RDMASetupPayload
  payload_fc :: RDMAFCPayload

definition sizeof_RDMASetupPayload :: nat where
  "sizeof_RDMASetupPayload = 24"

definition sizeof_RDMAFCPayload :: nat where
  "sizeof_RDMAFCPayload = 8"

text \<open>
  \<^verbatim>\<open>struct RDMAFCImm { uint32_t bytes_sent:28; uint32_t fcs_received:4; }\<close>, read and
  written through a union with a \<^verbatim>\<open>uint32_t\<close>. With the bit-field allocation of
  the little-endian ABIs the code builds for, the first member takes the low 28 bits
  and the second the high 4 bits of the word.
\<close>

record RDMAFCImm =
  bytes_sent :: u32
  fcs_received :: u32

definition imm_val :: "RDMAFCImm \<Rightarrow> u32" where
  "imm_val x = take_bit 28 (bytes_sent x) OR push_bit 28 (take_bit 4 (fcs_received x))"

definition imm_fc :: "u32 \<Rightarrow> RDMAFCImm" where
  "imm_fc v = \<lparr>bytes_sent = take_bit 28 v, fcs_received = drop_bit 28 v\<rparr>"

subsection \<open>Ring pointers\<close>

datatype which = HEAD | MIDDLE | TAIL

record ringptr =
  rp_size :: u32
  rp_head :: u32
  rp_middle :: u32
  rp_tail :: u32

text \<open>
  Modelled from the spec: the ring pointer class of rdmaConnection.h (the type of
  \<^verbatim>\<open>_sourceptr\<close>, \<^verbatim>\<open>_sinkptr\<close> and \<^verbatim>\<open>_rptr\<close>) is missing from the sources. The
  specification gives three monotonically increasing 32-bit counters HEAD, MIDDLE
  and TAIL, taken modulo the buffer size \<open>N\<close> when used as an offset, with
  available space \<open>N - (HEAD - TAIL)\<close>. The operations are the ones the code calls.
\<close>

definition rp_clear :: "u32 \<Rightarrow> ringptr" where
  "rp_clear n = \<lparr>rp_size = n, rp_head = 0, rp_middle = 0, rp_tail = 0\<rparr>"

fun rp_counter :: "ringptr \<Rightarrow> which \<Rightarrow> u32" where
  "rp_counter p HEAD = rp_head p"
| "rp_counter p MIDDLE = rp_middle p"
| "rp_counter p TAIL = rp_tail p"

definition ptr :: "ringptr \<Rightarrow> which \<Rightarrow> u32" where
  "ptr p w = rp_counter p w mod rp_size p"

definition tail :: "ringptr \<Rightarrow> u32" where
  "tail p = ptr p TAIL"

definition available2 :: "ringptr \<Rightarrow> which \<Rightarrow> which \<Rightarrow> u32" where
  "available2 p a b = rp_counter p a - rp_counter p b"

definition available :: "ringptr \<Rightarrow> u32" where
  "available p = available2 p HEAD TAIL"

definition negAvailable :: "ringptr \<Rightarrow> u32" where
  "negAvailable p = rp_size p - available p"

definition isEmpty :: "ringptr \<Rightarrow> bool" where
  "isEmpty p \<longleftrightarrow> available p = 0"

definition isFull :: "ringptr \<Rightarrow> bool" where
  "isFull p \<longleftrightarrow> available p = rp_size p"

fun incr :: "ringptr \<Rightarrow> which \<Rightarrow> u32 \<Rightarrow> ringptr" where
  "incr p HEAD n = p\<lparr>rp_head := rp_head p + n\<rparr>"
| "incr p MIDDLE n = p\<lparr>rp_middle := rp_middle p + n\<rparr>"
| "incr p TAIL n = p\<lparr>rp_tail := rp_tail p + n\<rparr>"

definition incrHead :: "ringptr \<Rightarrow> u32 \<Rightarrow> ringptr" where
  "incrHead p n = incr p HEAD n"

definition incrTail :: "ringptr \<Rightarrow> u32 \<Rightarrow> ringptr" where
  "incrTail p n = incr p TAIL n"

subsection \<open>The double-mapped ring buffer\<close>

text \<open>
  \<^verbatim>\<open>RingBuffer::resize\<close> creates a file of \<^verbatim>\<open>_size\<close> bytes and maps it twice, at
  \<^verbatim>\<open>_map\<close> and at \<^verbatim>\<open>_map + _size\<close>. The model keeps the bytes of the file
  once both halves show it (\<open>rb_pages\<close>, \<open>None\<close> before that); the \<^verbatim>\<open>2 * _size\<close> bytes
  seen through the mapping are \<open>rb_view\<close>. \<open>rb_map\<close> is whether \<^verbatim>\<open>_map\<close> is not
  \<^verbatim>\<open>MAP_FAILED\<close>, \<open>rb_mr\<close> whether \<^verbatim>\<open>_mr\<close> is not \<^verbatim>\<open>NULL\<close>.
\<close>

record RingBuffer =
  rb_size :: u64
  rb_map :: bool
  rb_pages :: "u8 list option"
  rb_mr :: bool

text \<open>
  \<^verbatim>\<open>RingBuffer::clear\<close> deregisters the memory region when there is one, unmaps
  \<^verbatim>\<open>_map\<close> when it is mapped, and resets the three members.
\<close>

definition rb_clear :: "RingBuffer \<Rightarrow> RingBuffer" where
  "rb_clear b = b\<lparr>rb_mr := False, rb_map := False, rb_pages := None, rb_size := 0\<rparr>"

text \<open>
  The calls of \<^verbatim>\<open>RingBuffer::resize\<close>, in its order; each succeeds or fails, and a
  failure leaves by \<^verbatim>\<open>goto out\<close> with what the calls before it have set: \<^verbatim>\<open>_size\<close>
  from the start, \<^verbatim>\<open>_map\<close> from the first \<^verbatim>\<open>mmap\<close> on (the reservation of
  \<^verbatim>\<open>2 * _size\<close> bytes), the file behind both halves after the third \<^verbatim>\<open>mmap\<close>
  (all zero, as \<^verbatim>\<open>ftruncate\<close> made it), and \<^verbatim>\<open>_mr\<close> after \<^verbatim>\<open>ibv_reg_mr\<close>.
\<close>

datatype resize_call = Mkstemp | Unlink | Ftruncate | Mmap_reserve | Mmap_first | Mmap_second
  | Ibv_reg_mr

definition rb_resize :: "(resize_call \<Rightarrow> bool) \<Rightarrow> u64 \<Rightarrow> RingBuffer \<Rightarrow> bool \<times> RingBuffer" where
  "rb_resize ans n b =
     (let b0 = rb_clear b in
      if n \<noteq> 0 then
        (let b1 = b0\<lparr>rb_size := n\<rparr> in
         if \<not> ans Mkstemp then (False, b1)
         else if \<not> ans Unlink then (False, b1)
         else if \<not> ans Ftruncate then (False, b1)
         else if \<not> ans Mmap_reserve then (False, b1)
         else if \<not> ans Mmap_first then (False, b1\<lparr>rb_map := True\<rparr>)
         else if \<not> ans Mmap_second then (False, b1\<lparr>rb_map := True\<rparr>)
         else if \<not> ans Ibv_reg_mr
         then (False, b1\<lparr>rb_map := True, rb_pages := Some (replicate (unat n) 0)\<rparr>)
         else (True, b1\<lparr>rb_map := True, rb_pages := Some ((replicate (unat n) 0)[0 := 0x45]),
                        rb_mr := True\<rparr>))
      else (True, b0))"

definition rb_view :: "RingBuffer \<Rightarrow> u8 list" where
  "rb_view b = (case rb_pages b of None \<Rightarrow> [] | Some pg \<Rightarrow> pg @ pg)"

text \<open>
  \<^verbatim>\<open>memcpy( dst, base + off, n )\<close> out of the mapping: the \<open>n\<close> bytes at the
  addresses \<open>off, ..., off + n - 1\<close> of the view. Beyond the mapping the C program has
  no defined behaviour, and \<open>!\<close> leaves the byte unspecified.
\<close>

definition rb_read :: "RingBuffer \<Rightarrow> nat \<Rightarrow> nat \<Rightarrow> u8 list" where
  "rb_read b off n = map (\<lambda>i. rb_view b ! (off + i)) [0..<n]"

text \<open>
  \<^verbatim>\<open>memcpy( base + off, src, n )\<close> into the mapping: the byte stored at address \<open>a\<close>
  of the view lands in byte \<open>a mod _size\<close> of the file, which both halves show.
\<close>

fun poke :: "nat \<Rightarrow> nat \<Rightarrow> u8 list \<Rightarrow> u8 list \<Rightarrow> u8 list" where
  "poke n off [] pg = pg"
| "poke n off (x # xs) pg = poke n (Suc off) xs (pg[off mod n := x])"

definition rb_write :: "RingBuffer \<Rightarrow> nat \<Rightarrow> u8 list \<Rightarrow> RingBuffer" where
  "rb_write b off xs = b\<lparr>rb_pages := map_option (poke (unat (rb_size b)) off xs) (rb_pages b)\<rparr>"

text \<open>The \<open>n\<close> bytes \<^verbatim>\<open>memcpy\<close> takes from the caller's buffer.\<close>

definition buffer_bytes :: "u8 list \<Rightarrow> nat \<Rightarrow> u8 list" where
  "buffer_bytes buffer n = map (\<lambda>i. buffer ! i) [0..<n]"

subsection \<open>The connection\<close>

datatype State = STATE_CLOSED | STATE_CONNECTING | STATE_LISTENING | STATE_CONNECTED
  | STATE_CLOSING

datatype resource = SourceBuf | SinkBuf | MsgBuf | Wcs | CmId | Cq | Cc | Pd | Cm | Rai
  | Notifier

text \<open>What the connection tells its collaborators, in the order it does.\<close>

datatype effect =
    FireStateChanged State
  | Rdma_disconnect
  | Rdma_reject
  | Release resource
  | Ibv_ack_cq_events u32
  | Rdma_post_send RDMAMessage
  | Ibv_post_send u32 u32 u64 \<comment> \<open>length, immediate data, remote address\<close>
  | Ibv_post_recv u32

text \<open>
  The members of \<^verbatim>\<open>RDMAConnection\<close> (and \<^verbatim>\<open>_state\<close> of its base class). A
  pointer member is \<open>True\<close> when it is not \<^verbatim>\<open>NULL\<close>, \<open>notifier\<close> when the
  descriptor is not negative, \<open>msgbuf\<close> is the number of buffers of the pool, and
  \<open>pipe_fd\<close> when the two descriptors of the pipe are open, \<open>pipe\<close> holds the
  8-byte values written to \<^verbatim>\<open>_pipe_fd[1]\<close> and not yet read from \<^verbatim>\<open>_pipe_fd[0]\<close>. The credit counters are the \<^verbatim>\<open>int32_t\<close> members the
  constructor sets to \<^verbatim>\<open>0L\<close>.
\<close>

record conn =
  state :: State
  established :: bool
  depth :: i32
  writes :: i32
  fcs :: i32
  wcredits :: i32
  fcredits :: i32
  completions :: u32
  cpd :: RDMAConnParamData
  sourcebuf :: RingBuffer
  sourceptr :: ringptr
  sinkbuf :: RingBuffer
  sinkptr :: ringptr
  rptr :: ringptr
  rbase :: u64
  rkey :: u64
  msgbuf :: u32
  pipe_fd :: bool
  pipe :: "u64 list"
  rai :: bool
  cm :: bool
  cm_id :: bool
  new_cm_id :: bool
  cc :: bool
  cq :: bool
  pd :: bool
  wcs :: bool
  notifier :: bool
  trace :: "effect list"

definition empty_rb :: RingBuffer where
  "empty_rb = \<lparr>rb_size = 0, rb_map = False, rb_pages = None, rb_mr = False\<rparr>"

text \<open>The constructor \<^verbatim>\<open>RDMAConnection::RDMAConnection\<close>.\<close>

definition new_conn :: conn where
  "new_conn = \<lparr>state = STATE_CLOSED, established = False, depth = 0, writes = 0, fcs = 0,
     wcredits = 0, fcredits = 0, completions = 0, cpd = zero_cpd,
     sourcebuf = empty_rb, sourceptr = rp_clear 0, sinkbuf = empty_rb, sinkptr = rp_clear 0,
     rptr = rp_clear 0, rbase = 0, rkey = 0, msgbuf = 0,
     pipe_fd = False, pipe = [],
     rai = False, cm = False, cm_id = False, new_cm_id = False, cc = False, cq = False,
     pd = False, wcs = False, notifier = False, trace = []\<rparr>"

definition emit :: "effect \<Rightarrow> conn \<Rightarrow> conn" where
  "emit e s = s\<lparr>trace := trace s @ [e]\<rparr>"

definition setState :: "State \<Rightarrow> conn \<Rightarrow> conn" where
  "setState st s = (if st \<noteq> state s then emit (FireStateChanged st) (s\<lparr>state := st\<rparr>) else s)"

definition release :: "resource \<Rightarrow> bool \<Rightarrow> conn \<Rightarrow> conn" where
  "release r held s = (if held then emit (Release r) s else s)"

definition rb_held :: "RingBuffer \<Rightarrow> bool" where
  "rb_held b \<longleftrightarrow> rb_mr b \<or> rb_map b"

text \<open>
  One statement of \<^verbatim>\<open>_cleanup\<close> of the form
  \<^verbatim>\<open>if( NULL != x ) destroy( x ); x = NULL;\<close>: the resource is released when it is
  held, and the member is reset.
\<close>

definition free :: "resource \<Rightarrow> (conn \<Rightarrow> bool) \<Rightarrow> (conn \<Rightarrow> conn) \<Rightarrow> conn \<Rightarrow> conn" where
  "free r held reset s = reset (release r (held s) s)"

definition ack_completions :: "conn \<Rightarrow> conn" where
  "ack_completions s =
     (if completions s > 0
      then (emit (Ibv_ack_cq_events (completions s)) s)\<lparr>completions := 0\<rparr>
      else s)"

text \<open>\<^verbatim>\<open>_cleanup\<close>, statement by statement.\<close>

definition cleanup_steps :: "(conn \<Rightarrow> conn) list" where
  "cleanup_steps =
     [free SourceBuf (\<lambda>s. rb_held (sourcebuf s)) (\<lambda>s. s\<lparr>sourcebuf := rb_clear (sourcebuf s)\<rparr>),
      free SinkBuf (\<lambda>s. rb_held (sinkbuf s)) (\<lambda>s. s\<lparr>sinkbuf := rb_clear (sinkbuf s)\<rparr>),
      free MsgBuf (\<lambda>s. msgbuf s \<noteq> 0) (\<lambda>s. s\<lparr>msgbuf := 0\<rparr>),
      ack_completions,
      free Wcs wcs (\<lambda>s. s\<lparr>wcs := False\<rparr>),
      free CmId cm_id (\<lambda>s. s\<lparr>cm_id := False\<rparr>),
      free Cq cq (\<lambda>s. s\<lparr>cq := False\<rparr>),
      free Cc cc (\<lambda>s. s\<lparr>cc := False\<rparr>),
      free Pd pd (\<lambda>s. s\<lparr>pd := False\<rparr>),
      free Cm cm (\<lambda>s. s\<lparr>cm := False\<rparr>),
      free Rai rai (\<lambda>s. s\<lparr>rai := False\<rparr>),
      (\<lambda>s. s\<lparr>rptr := rp_clear 0, rbase := 0, rkey := 0\<rparr>),
      free Notifier notifier (\<lambda>s. s\<lparr>notifier := False\<rparr>)]"

definition cleanup :: "conn \<Rightarrow> conn" where
  "cleanup s = fold (\<lambda>f. f) cleanup_steps s"

text \<open>\<^verbatim>\<open>RDMAConnection::_close\<close>.\<close>

definition disconnect :: "conn \<Rightarrow> conn" where
  "disconnect s = (if established s then emit Rdma_disconnect s else s)"

definition close_impl :: "conn \<Rightarrow> conn" where
  "close_impl s =
     (if STATE_CLOSED \<noteq> state s
      then cleanup (setState STATE_CLOSED (disconnect (setState STATE_CLOSING s)))
      else s)"

text \<open>
  Modelled from the spec: the public \<^verbatim>\<open>close()\<close> that \<^verbatim>\<open>connect\<close>, \<^verbatim>\<open>readSync\<close>
  and \<^verbatim>\<open>_finishAccept\<close> call is declared in rdmaConnection.h, which is missing. The
  specification has one teardown path, guarded by the state; that path is
  \<^verbatim>\<open>_close\<close>, which the destructor calls as well.
\<close>

definition close :: "conn \<Rightarrow> conn" where
  "close s = close_impl s"

subsection \<open>Flow control and protocol messages\<close>

definition initProtocol :: "i32 \<Rightarrow> conn \<Rightarrow> bool \<times> conn" where
  "initProtocol d s =
     (if sint d < 2 then (False, s)
      else (True, s\<lparr>depth := d, writes := 0, fcs := 0,
                     wcredits := word_of_int (sint d sdiv 2) - 2,
                     fcredits := word_of_int (sint d sdiv 2) + 2\<rparr>))"

definition needFC :: "conn \<Rightarrow> bool" where
  "needFC s = True"

text \<open>
  \<^verbatim>\<open>_incrAvailableBytes\<close> writes the 8 bytes of \<open>b\<close> to the pipe; \<open>ok\<close> is whether
  \<^verbatim>\<open>::write\<close> returned 8.
\<close>

definition incrAvailableBytes :: "bool \<Rightarrow> u64 \<Rightarrow> conn \<Rightarrow> bool \<times> conn" where
  "incrAvailableBytes ok b s = (if ok then (True, s\<lparr>pipe := pipe s @ [b]\<rparr>) else (False, s))"

text \<open>
  What \<^verbatim>\<open>::read\<close> on the pipe answers in one turn of the loop of
  \<^verbatim>\<open>_getAvailableBytes\<close>: all 8 bytes of the next value, fewer bytes, or \<open>-1\<close>; and
  whether the \<^verbatim>\<open>::poll\<close> that follows succeeds. (\<^verbatim>\<open>::read\<close> answers 0 only when the
  writing end is closed, which the connection never does.)
\<close>

datatype read_answer = Read_full | Read_short | Read_fail

record pipe_answer =
  pipe_read :: read_answer
  pipe_poll_ok :: bool

text \<open>
  The \<^verbatim>\<open>do ... while( pfd.revents > 0 )\<close> loop of \<^verbatim>\<open>_getAvailableBytes\<close>, with the
  locals \<^verbatim>\<open>currBytes\<close> and \<^verbatim>\<open>available_bytes\<close>. A short read leaves by \<^verbatim>\<open>err\<close>
  (the value it has begun to read is taken off the pipe). A failed read leaves
  \<^verbatim>\<open>currBytes\<close> as it was, and the loop adds it once more; the test of
  \<^verbatim>\<open>count == -1\<close> comes only after the loop. \<^verbatim>\<open>::poll\<close> reports the pipe exactly when it
  holds data, so the loop goes on as long as it does. On an empty pipe \<^verbatim>\<open>::read\<close>
  blocks; the loop has not returned (\<open>None\<close>) then, and when the answers at hand run
  out.
\<close>

fun getAvailableBytes_loop :: "pipe_answer list \<Rightarrow> u64 \<Rightarrow> u64 \<Rightarrow> conn \<Rightarrow> (u64 \<times> conn) option" where
  "getAvailableBytes_loop [] currBytes available_bytes s = None"
| "getAvailableBytes_loop (a # rest) currBytes available_bytes s =
     (case pipe s of
        [] \<Rightarrow> None
      | v # vs \<Rightarrow>
          (if pipe_read a = Read_short then Some (0, s\<lparr>pipe := vs\<rparr>)
           else
             (let curr1 = (if pipe_read a = Read_full then v else currBytes);
                  s1 = (if pipe_read a = Read_full then s\<lparr>pipe := vs\<rparr> else s);
                  avail1 = available_bytes + curr1
              in if \<not> pipe_poll_ok a then Some (0, s1)
                 else if pipe s1 \<noteq> [] then getAvailableBytes_loop rest curr1 avail1 s1
                 else if pipe_read a = Read_fail then Some (0, s1)
                 else Some (avail1, s1))))"

definition getAvailableBytes :: "pipe_answer list \<Rightarrow> conn \<Rightarrow> (u64 \<times> conn) option" where
  "getAvailableBytes reads s = getAvailableBytes_loop reads 0 0 s"

text \<open>The total the pipe signals, as a number.\<close>

definition signalled :: "conn \<Rightarrow> nat" where
  "signalled s = sum_list (map unat (pipe s))"

definition recvRDMAWrite :: "bool \<Rightarrow> u32 \<Rightarrow> conn \<Rightarrow> conn" where
  "recvRDMAWrite pipe_ok imm s =
     (let x = imm_fc (ntohl imm);
          s1 = snd (incrAvailableBytes pipe_ok (ucast (bytes_sent x))
                      (s\<lparr>sinkptr := incrHead (sinkptr s) (bytes_sent x)\<rparr>))
      in s1\<lparr>fcredits := fcredits s1 + fcs_received x, writes := writes s1 + 1\<rparr>)"

definition makeImm :: "u32 \<Rightarrow> conn \<Rightarrow> u32 \<times> conn" where
  "makeImm b s =
     (let f = min MAX_FC (ucast (fcs s) :: u16);
          s1 = s\<lparr>fcs := fcs s - ucast f\<rparr>;
          x = \<lparr>bytes_sent = b, fcs_received = ucast f\<rparr>
      in (htonl (imm_val x), s1))"

text \<open>\<open>ok\<close> is whether \<^verbatim>\<open>ibv_post_send\<close> succeeded.\<close>

definition postRDMAWrite :: "bool \<Rightarrow> conn \<Rightarrow> bool \<times> conn" where
  "postRDMAWrite ok s =
     (let len = available2 (sourceptr s) HEAD MIDDLE;
          remote_addr = rbase s + ucast (ptr (rptr s) HEAD)
      in case makeImm len (s\<lparr>sourceptr := incr (sourceptr s) MIDDLE len\<rparr>) of
           (imm, s1) \<Rightarrow>
             (ok, emit (Ibv_post_send len imm remote_addr)
                    (s1\<lparr>rptr := incrHead (rptr s1) len, wcredits := wcredits s1 - 1\<rparr>)))"

text \<open>\<open>ok\<close> is whether \<^verbatim>\<open>rdma_post_send\<close> succeeded.\<close>

definition postMessage :: "bool \<Rightarrow> RDMAMessage \<Rightarrow> conn \<Rightarrow> bool \<times> conn" where
  "postMessage ok message s =
     (ok, emit (Rdma_post_send message) (s\<lparr>fcredits := fcredits s - 1\<rparr>))"

definition recvFC :: "RDMAFCPayload \<Rightarrow> conn \<Rightarrow> conn" where
  "recvFC fc s =
     s\<lparr>rptr := incrTail (rptr s) (bytes_received fc),
       wcredits := wcredits s + writes_received fc,
       fcs := fcs s + 1\<rparr>"

definition recvSetup :: "RDMASetupPayload \<Rightarrow> conn \<Rightarrow> conn" where
  "recvSetup setup s =
     s\<lparr>rbase := setup_rbase setup, rptr := rp_clear (ucast (setup_rlen setup)),
       rkey := setup_rkey setup\<rparr>"

definition recvMessage :: "RDMAMessage \<Rightarrow> conn \<Rightarrow> conn" where
  "recvMessage message s =
     (if opcode message = FC then
        (if sizeof_RDMAFCPayload = unat (length_msg message)
         then recvFC (payload_fc message) s else s)
      else if opcode message = SETUP then
        (if sizeof_RDMASetupPayload = unat (length_msg message)
         then recvSetup (payload_setup message) s else s)
      else s)"

definition zero_setup :: RDMASetupPayload where
  "zero_setup = \<lparr>setup_rbase = 0, setup_rlen = 0, setup_rkey = 0\<rparr>"

definition zero_fc :: RDMAFCPayload where
  "zero_fc = \<lparr>bytes_received = 0, writes_received = 0\<rparr>"

definition postFC :: "bool \<Rightarrow> u32 \<Rightarrow> conn \<Rightarrow> bool \<times> conn" where
  "postFC ok bytes_taken s =
     (let fc = \<lparr>bytes_received = bytes_taken, writes_received = writes s\<rparr>;
          message = \<lparr>opcode = FC, length_msg = of_nat sizeof_RDMAFCPayload,
                     payload_setup = zero_setup, payload_fc = fc\<rparr>
      in postMessage ok message (s\<lparr>writes := writes s - writes_received fc\<rparr>))"

text \<open>
  \<open>base\<close> and \<open>key\<close> are the address of the sink mapping and the remote key of its
  memory region, which mmap and ibv_reg_mr chose.
\<close>

definition postSetup :: "bool \<Rightarrow> u64 \<Rightarrow> u64 \<Rightarrow> conn \<Rightarrow> bool \<times> conn" where
  "postSetup ok base key s =
     (let setup = \<lparr>setup_rbase = base, setup_rlen = rb_size (sinkbuf s), setup_rkey = key\<rparr>;
          message = \<lparr>opcode = SETUP, length_msg = of_nat sizeof_RDMASetupPayload,
                     payload_setup = setup, payload_fc = zero_fc\<rparr>
      in postMessage ok message s)"

subsection \<open>Draining and filling the rings\<close>

definition drain :: "u32 \<Rightarrow> conn \<Rightarrow> u32 \<times> u8 list \<times> conn" where
  "drain bytes s =
     (let b = min bytes (available (sinkptr s));
          out = rb_read (sinkbuf s) (unat (tail (sinkptr s))) (unat b)
      in (b, out, s\<lparr>sinkptr := incrTail (sinkptr s) b\<rparr>))"

text \<open>
  \<open>wrap\<close> is whether the preprocessor symbol \<^verbatim>\<open>WRAP\<close> is defined. The file does not
  define it, so \<open>wrap = False\<close> is the build the file gives by itself.
\<close>

definition fill :: "bool \<Rightarrow> u8 list \<Rightarrow> u32 \<Rightarrow> conn \<Rightarrow> u32 \<times> conn" where
  "fill wrap buffer bytes s =
     (let b0 = min bytes (min (negAvailable (sourceptr s)) (negAvailable (rptr s)));
          b = (if \<not> wrap
               then min b0 (ucast (rb_size (sourcebuf s) - ucast (ptr (sourceptr s) HEAD)))
               else b0);
          s1 = s\<lparr>sourcebuf := rb_write (sourcebuf s) (unat (ptr (sourceptr s) HEAD))
                                (buffer_bytes buffer (unat b))\<rparr>
      in (b, s1\<lparr>sourceptr := incrHead (sourceptr s1) b\<rparr>))"

subsection \<open>What the libraries answer\<close>

datatype Events = BUF_EVENT | CQ_EVENT | CM_EVENT

datatype rdma_cm_event_type =
    RDMA_CM_EVENT_ADDR_RESOLVED
  | RDMA_CM_EVENT_ROUTE_RESOLVED
  | RDMA_CM_EVENT_CONNECT_REQUEST
  | RDMA_CM_EVENT_ESTABLISHED
  | RDMA_CM_EVENT_DISCONNECTED
  | RDMA_CM_EVENT_REJECTED
  | RDMA_CM_EVENT_OTHER

text \<open>
  A connection manager event; \<open>private_data\<close> is \<open>None\<close> when
  \<^verbatim>\<open>private_data_len\<close> is less than \<^verbatim>\<open>sizeof(RDMAConnParamData)\<close>.
\<close>

record rdma_cm_event =
  event :: rdma_cm_event_type
  private_data :: "RDMAConnParamData option"

datatype ibv_wc_status = IBV_WC_SUCCESS | IBV_WC_WR_FLUSH_ERR | IBV_WC_OTHER_ERR

text \<open>The values of \<^verbatim>\<open>enum ibv_wc_opcode\<close> in infiniband/verbs.h.\<close>

definition IBV_WC_SEND :: u32 where
  "IBV_WC_SEND = 0"

definition IBV_WC_RDMA_WRITE :: u32 where
  "IBV_WC_RDMA_WRITE = 1"

definition IBV_WC_RECV :: u32 where
  "IBV_WC_RECV = push_bit 7 1"

definition IBV_WC_RECV_RDMA_WITH_IMM :: u32 where
  "IBV_WC_RECV_RDMA_WITH_IMM = push_bit 7 1 + 1"

text \<open>
  A work completion, with the message its \<^verbatim>\<open>wr_id\<close> points at when it is a
  receive, and with the answer of \<^verbatim>\<open>::write\<close> to the pipe while it is handled.
\<close>

record ibv_wc =
  status :: ibv_wc_status
  wc_opcode :: u32
  imm_data :: u32
  wr_id :: u64
  wc_message :: RDMAMessage
  wc_pipe_ok :: bool

text \<open>
  One answer of \<^verbatim>\<open>ibv_poll_cq\<close>: an error, or the completions polled together
  with the answer of the \<^verbatim>\<open>ibv_post_recv\<close> that reposts the receives.
\<close>

datatype poll = PollError | Polled "ibv_wc list" bool

text \<open>
  One pass of a retry loop: what the libraries answer while it runs. \<open>epoll_ok\<close>:
  \<^verbatim>\<open>epoll_wait\<close> did not fail; \<open>cq_ready\<close>, \<open>cm_ready\<close>: it reported the completion
  channel, the event channel (it reports the pipe exactly when the pipe holds
  data); \<open>cm_event\<close>: the event \<^verbatim>\<open>rdma_get_cm_event\<close> returns, \<open>None\<close> when it fails;
  \<open>polls\<close>: the successive answers of \<^verbatim>\<open>ibv_poll_cq\<close>; \<open>pipe_reads\<close>: the answers to
  the successive turns of the loop of \<^verbatim>\<open>_getAvailableBytes\<close>; \<open>now\<close>: the clock.
\<close>

record tick =
  epoll_ok :: bool
  cq_ready :: bool
  cm_ready :: bool
  cm_event :: "rdma_cm_event option"
  get_cq_event_ok :: bool
  req_notify_ok :: bool
  polls :: "poll list"
  pipe_reads :: "pipe_answer list"
  pipe_write_ok :: bool
  post_send_ok :: bool
  now :: int

text \<open>
  What the functions take from \<^verbatim>\<open>Global\<close> and from the preprocessor.
  \<^verbatim>\<open>EQ_TIMEOUT_INDEFINITE\<close> is defined in a header that is not among the sources.
\<close>

record globals =
  timeout :: u32
  EQ_TIMEOUT_INDEFINITE :: u32
  WRAP :: bool
  IATTR_RDMA_SEND_QUEUE_DEPTH :: i32
  IATTR_RDMA_RING_BUFFER_SIZE_MB :: i32

definition timed_out :: "globals \<Rightarrow> int \<Rightarrow> tick \<Rightarrow> bool" where
  "timed_out g start t \<longleftrightarrow>
     (if EQ_TIMEOUT_INDEFINITE g \<noteq> timeout g then now t - start > uint (timeout g) else False)"

subsection \<open>Events and completions\<close>

definition checkEvents :: "tick \<Rightarrow> conn \<Rightarrow> bool \<times> Events set" where
  "checkEvents t s =
     (if \<not> epoll_ok t then (False, {})
      else (True, (if pipe_fd s \<and> pipe s \<noteq> [] then {BUF_EVENT} else {})
                 \<union> (if cc s \<and> cq_ready t then {CQ_EVENT} else {})
                 \<union> (if cm s \<and> cm_ready t then {CM_EVENT} else {})))"

definition doCMEvent :: "rdma_cm_event_type \<Rightarrow> rdma_cm_event option \<Rightarrow> conn \<Rightarrow> bool \<times> conn" where
  "doCMEvent expected got s =
     (case got of
        None \<Rightarrow> (False, s)
      | Some e \<Rightarrow>
          (let ok = (event e = expected);
               received = (case private_data e of None \<Rightarrow> zero_cpd | Some d \<Rightarrow> d);
               s1 = (if ok \<and> RDMA_CM_EVENT_DISCONNECTED = event e
                     then s\<lparr>established := False\<rparr> else s);
               s2 = (if ok \<and> RDMA_CM_EVENT_ESTABLISHED = event e
                     then s1\<lparr>established := True, cpd := received\<rparr> else s1);
               s3 = (if ok \<and> RDMA_CM_EVENT_CONNECT_REQUEST = event e
                     then s2\<lparr>new_cm_id := True, cpd := received\<rparr> else s2)
           in (ok, s3)))"

definition checkDisconnected :: "tick \<Rightarrow> conn \<Rightarrow> bool \<times> Events set \<times> conn" where
  "checkDisconnected t s =
     (case checkEvents t s of
        (False, events) \<Rightarrow> (False, events, s)
      | (True, events) \<Rightarrow>
          (if CM_EVENT \<in> events then
             (case doCMEvent RDMA_CM_EVENT_DISCONNECTED (cm_event t) s of
                (False, s1) \<Rightarrow> (False, events, s1)
              | (True, s1) \<Rightarrow> (True, events, s1))
           else (True, events, s)))"

definition rearmCQ :: "tick \<Rightarrow> conn \<Rightarrow> bool \<times> conn" where
  "rearmCQ t s =
     (if \<not> get_cq_event_ok t then (False, s)
      else
        (req_notify_ok t,
         if completions s + 1 = - 1
         then (emit (Ibv_ack_cq_events (completions s + 1)) s)\<lparr>completions := 0\<rparr>
         else s\<lparr>completions := completions s + 1\<rparr>))"

definition postReceives :: "bool \<Rightarrow> u32 \<Rightarrow> conn \<Rightarrow> bool \<times> conn" where
  "postReceives ok count s = (ok, emit (Ibv_post_recv count) s)"

text \<open>
  The \<^verbatim>\<open>for\<close> loop of \<^verbatim>\<open>_checkCQ\<close> over the completions polled: the result is
  whether no fatal completion was met, the number of receives to repost, and the
  connection.
\<close>

fun handle_wcs :: "ibv_wc list \<Rightarrow> u32 \<Rightarrow> conn \<Rightarrow> bool \<times> u32 \<times> conn" where
  "handle_wcs [] num_recvs s = (True, num_recvs, s)"
| "handle_wcs (wc # rest) num_recvs s =
     (if IBV_WC_SUCCESS \<noteq> status wc then
        (if IBV_WC_WR_FLUSH_ERR = status wc then handle_wcs rest num_recvs s
         else (False, num_recvs, s))
      else
        (let s1 = (if IBV_WC_RECV_RDMA_WITH_IMM = wc_opcode wc
                   then recvRDMAWrite (wc_pipe_ok wc) (imm_data wc) s
                   else if IBV_WC_RECV = wc_opcode wc then recvMessage (wc_message wc) s
                   else if IBV_WC_SEND = wc_opcode wc then s
                   else if IBV_WC_RDMA_WRITE = wc_opcode wc
                   then s\<lparr>sourceptr := incrTail (sourceptr s) (ucast (wr_id wc))\<rparr>
                   else s);
             n1 = (if IBV_WC_RECV AND wc_opcode wc \<noteq> 0 then num_recvs + 1 else num_recvs)
         in handle_wcs rest n1 s1))"

text \<open>
  \<^verbatim>\<open>_checkCQ\<close> from the label \<^verbatim>\<open>repoll\<close> on. With \<open>again\<close> (the
  parameter \<^verbatim>\<open>drain\<close>) it polls again as long
  as a poll brought completions, so it need not return: \<open>None\<close> when the answers
  at hand run out before it does.
\<close>

fun repoll :: "bool \<Rightarrow> poll list \<Rightarrow> conn \<Rightarrow> (bool \<times> conn) option" where
  "repoll again [] s = None"
| "repoll again (PollError # ps) s = Some (False, s)"
| "repoll again (Polled cs post_ok # ps) s =
     (case handle_wcs cs 0 s of
        (False, n, s1) \<Rightarrow> Some (False, s1)
      | (True, n, s1) \<Rightarrow>
          (case (if n > 0 then postReceives post_ok n s1 else (True, s1)) of
             (False, s2) \<Rightarrow> Some (False, s2)
           | (True, s2) \<Rightarrow> (if again \<and> cs \<noteq> [] then repoll again ps s2 else Some (True, s2))))"

definition checkCQ :: "bool \<Rightarrow> poll list \<Rightarrow> conn \<Rightarrow> (bool \<times> conn) option" where
  "checkCQ again ps s = (if \<not> cq s then Some (True, s) else repoll again ps s)"

subsection \<open>Retry loops\<close>

text \<open>
  Every blocking function is a loop \<^verbatim>\<open>retry: ... goto retry;\<close> that ends by
  returning. One pass of such a loop either jumps back (\<open>Again\<close>, with the local
  variables that survive the jump), returns (\<open>Done\<close>), or is caught in the inner
  loop of \<^verbatim>\<open>_checkCQ\<close> (\<open>Hang\<close>). The function has returned only if one of its
  passes has; when the answers at hand run out first, the result is \<open>None\<close>.
\<close>

datatype ('k, 'r) pass = Again 'k conn | Done 'r conn | Hang

fun run_loop :: "(tick \<Rightarrow> 'k \<Rightarrow> conn \<Rightarrow> ('k, 'r) pass) \<Rightarrow> tick list \<Rightarrow> 'k \<Rightarrow> conn
    \<Rightarrow> ('r \<times> conn) option" where
  "run_loop body [] k s = None"
| "run_loop body (t # ts) k s =
     (case body t k s of
        Again k' s' \<Rightarrow> run_loop body ts k' s'
      | Done r s' \<Rightarrow> Some (r, s')
      | Hang \<Rightarrow> None)"

subsection \<open>readSync\<close>

text \<open>
  The result of \<^verbatim>\<open>readSync\<close> is the \<^verbatim>\<open>int64_t\<close> it returns (as an integer: it is
  \<open>-1\<close>, \<open>0\<close> or a \<^verbatim>\<open>uint32_t\<close>) and the bytes \<^verbatim>\<open>memcpy\<close> has put into the
  caller's buffer. The label \<^verbatim>\<open>err\<close>:
\<close>

definition readSync_err :: "conn \<Rightarrow> ('k, int \<times> u8 list) pass" where
  "readSync_err s = Done (- 1, []) (close s)"

text \<open>
  From \<^verbatim>\<open>if( events.test( BUF_EVENT ))\<close> to the end of the function. The locals
  \<^verbatim>\<open>extra_event\<close> and \<^verbatim>\<open>available_bytes\<close> keep their values over \<^verbatim>\<open>goto retry\<close>.
\<close>

definition readSync_take :: "globals \<Rightarrow> u64 \<Rightarrow> int \<Rightarrow> tick \<Rightarrow> bool \<Rightarrow> bool \<times> u64 \<Rightarrow> conn
    \<Rightarrow> (bool \<times> u64, int \<times> u8 list) pass" where
  "readSync_take g bytes start t buf_event k s =
     (case (if buf_event then getAvailableBytes (pipe_reads t) s else Some (snd k, s)) of
        None \<Rightarrow> Hang
      | Some (available_bytes, s1) \<Rightarrow>
          if buf_event \<and> 0 = available_bytes then readSync_err s1
          else
            (case drain (ucast bytes) s1 of
               (bytes_taken, out, s2) \<Rightarrow>
                 if 0 = bytes_taken then
                   (if isEmpty (sinkptr s2) \<and> \<not> established s2 then readSync_err s2
                    else if timed_out g start t then readSync_err s2
                    else Again (fst k, available_bytes) s2)
                 else
                   (let s3 = (if available_bytes > ucast bytes_taken
                              then snd (incrAvailableBytes (pipe_write_ok t)
                                         (available_bytes - ucast bytes_taken) s2)
                              else s2);
                        s4 = (if established s3 \<and> needFC s3
                              then snd (postFC (post_send_ok t) bytes_taken s3) else s3)
                    in Done (uint bytes_taken, out) s4)))"

text \<open>
  The three checks at the head of a pass: \<^verbatim>\<open>_checkDisconnected\<close>, \<^verbatim>\<open>_rearmCQ\<close>
  when the completion channel fired, and \<^verbatim>\<open>_checkCQ\<close>. The result is whether
  none of them failed, the events seen, and the connection.
\<close>

definition readSync_checks :: "tick \<Rightarrow> conn \<Rightarrow> (bool \<times> Events set \<times> conn) option" where
  "readSync_checks t s =
     (case checkDisconnected t s of
        (False, events, s1) \<Rightarrow> Some (False, events, s1)
      | (True, events, s1) \<Rightarrow>
          (case (if CQ_EVENT \<in> events then rearmCQ t s1 else (True, s1)) of
             (False, s2) \<Rightarrow> Some (False, events, s2)
           | (True, s2) \<Rightarrow>
               (case checkCQ (CQ_EVENT \<in> events) (polls t) s2 of
                  None \<Rightarrow> None
                | Some (ok, s3) \<Rightarrow> Some (ok, events, s3))))"

text \<open>The rest of the pass, from \<^verbatim>\<open>if( _established && _needFC( ) && ...\<close> on.\<close>

definition readSync_decide :: "globals \<Rightarrow> u64 \<Rightarrow> bool \<Rightarrow> int \<Rightarrow> tick \<Rightarrow> Events set
    \<Rightarrow> bool \<times> u64 \<Rightarrow> conn \<Rightarrow> (bool \<times> u64, int \<times> u8 list) pass" where
  "readSync_decide g bytes block start t events k s =
     (if established s \<and> needFC s \<and> 0 = fcredits s then
        (if timed_out g start t then readSync_err s else Again k s)
      else if established s \<and> BUF_EVENT \<notin> events then
        (if fst k \<and> \<not> block then Done (0, []) s else Again (True, snd k) s)
      else readSync_take g bytes start t (BUF_EVENT \<in> events) k s)"

definition readSync_pass :: "globals \<Rightarrow> u64 \<Rightarrow> bool \<Rightarrow> int \<Rightarrow> tick \<Rightarrow> bool \<times> u64 \<Rightarrow> conn
    \<Rightarrow> (bool \<times> u64, int \<times> u8 list) pass" where
  "readSync_pass g bytes block start t k s =
     (case readSync_checks t s of
        None \<Rightarrow> Hang
      | Some (False, events, s1) \<Rightarrow> readSync_err s1
      | Some (True, events, s1) \<Rightarrow> readSync_decide g bytes block start t events k s1)"

definition readSync :: "globals \<Rightarrow> u64 \<Rightarrow> bool \<Rightarrow> int \<Rightarrow> tick list \<Rightarrow> conn
    \<Rightarrow> ((int \<times> u8 list) \<times> conn) option" where
  "readSync g bytes block start ticks s =
     (if STATE_CONNECTED \<noteq> state s then Some ((- 1, []), close s)
      else run_loop (readSync_pass g bytes block start) ticks (False, 0) s)"

subsection \<open>write\<close>

definition write_pass :: "globals \<Rightarrow> u8 list \<Rightarrow> u32 \<Rightarrow> int \<Rightarrow> tick \<Rightarrow> unit \<Rightarrow> conn
    \<Rightarrow> (unit, int) pass" where
  "write_pass g buffer can_put start t k s =
     (case checkDisconnected t s of
        (False, events, s1) \<Rightarrow> Done (- 1) s1
      | (True, events, s1) \<Rightarrow>
          if \<not> established s1 then Done (- 1) s1
          else
            (case checkCQ False (polls t) s1 of
               None \<Rightarrow> Hang
             | Some (False, s2) \<Rightarrow> Done (- 1) s2
             | Some (True, s2) \<Rightarrow>
                 if 0 = wcredits s2 then
                   (if timed_out g start t then Done (- 1) s2 else Again () s2)
                 else
                   (case fill (WRAP g) buffer can_put s2 of
                      (bytes_put, s3) \<Rightarrow>
                        if 0 = bytes_put then
                          (if timed_out g start t then Done (- 1) s3 else Again () s3)
                        else
                          (case postRDMAWrite (post_send_ok t) s3 of
                             (False, s4) \<Rightarrow> Done (- 1) s4
                           | (True, s4) \<Rightarrow> Done (uint bytes_put) s4))))"

definition write_conn :: "globals \<Rightarrow> u8 list \<Rightarrow> u64 \<Rightarrow> int \<Rightarrow> tick list \<Rightarrow> conn
    \<Rightarrow> (int \<times> conn) option" where
  "write_conn g buffer bytes start ticks s =
     (let can_put = ucast (min bytes MAX_BS) in
      if STATE_CONNECTED \<noteq> state s then Some (- 1, s)
      else run_loop (write_pass g buffer can_put start) ticks () s)"

subsection \<open>Waiting for events and for the setup message\<close>

definition waitForCMEvent_pass :: "globals \<Rightarrow> rdma_cm_event_type \<Rightarrow> int \<Rightarrow> tick \<Rightarrow> unit
    \<Rightarrow> conn \<Rightarrow> (unit, bool) pass" where
  "waitForCMEvent_pass g expected start t k s =
     (case checkEvents t s of
        (False, events) \<Rightarrow> Done False s
      | (True, events) \<Rightarrow>
          if CM_EVENT \<in> events then
            (case doCMEvent expected (cm_event t) s of
               (False, s1) \<Rightarrow> Done False s1
             | (True, s1) \<Rightarrow> Done True s1)
          else if timed_out g start t then Done False s
          else Again () s)"

definition waitForCMEvent :: "globals \<Rightarrow> rdma_cm_event_type \<Rightarrow> int \<times> tick list \<Rightarrow> conn
    \<Rightarrow> (bool \<times> conn) option" where
  "waitForCMEvent g expected w s =
     run_loop (waitForCMEvent_pass g expected (fst w)) (snd w) () s"

definition waitRecvSetup_pass :: "globals \<Rightarrow> int \<Rightarrow> tick \<Rightarrow> unit \<Rightarrow> conn \<Rightarrow> (unit, bool) pass" where
  "waitRecvSetup_pass g start t k s =
     (case checkDisconnected t s of
        (False, events, s1) \<Rightarrow> Done False s1
      | (True, events, s1) \<Rightarrow>
          if \<not> established s1 then Done False s1
          else
            (case checkCQ True (polls t) s1 of
               None \<Rightarrow> Hang
             | Some (False, s2) \<Rightarrow> Done False s2
             | Some (True, s2) \<Rightarrow>
                 if 0 = rkey s2 then
                   (if timed_out g start t then Done False s2 else Again () s2)
                 else Done True s2))"

definition waitRecvSetup :: "globals \<Rightarrow> int \<times> tick list \<Rightarrow> conn \<Rightarrow> (bool \<times> conn) option" where
  "waitRecvSetup g w s = run_loop (waitRecvSetup_pass g (fst w)) (snd w) () s"

subsection \<open>The handshake\<close>

text \<open>The library calls of the handshake, each of which succeeds or fails.\<close>

datatype call =
    Rdma_getaddrinfo | Epoll_create | Rdma_create_event_channel | Epoll_ctl_cm
  | Rdma_create_id | Rdma_resolve_addr | Ibv_alloc_pd | Ibv_create_comp_channel
  | Epoll_ctl_cc | Ibv_create_cq | Ibv_req_notify_cq | Rdma_create_qp | Pipe_create
  | Epoll_ctl_pipe | Resize_msgbuf | Rdma_set_option
  | Rdma_resolve_route | Ibv_post_recv_initial | Rdma_connect | Rdma_migrate_id
  | Rdma_accept | Rdma_reject_call | Rdma_post_send_setup

text \<open>
  What one run of \<^verbatim>\<open>connect\<close> or \<^verbatim>\<open>_finishAccept\<close> gets from outside: the port
  and host name of the connection description, the answers of the library calls
  (those of the two \<^verbatim>\<open>RingBuffer::resize\<close> apart), whether the device is an InfiniBand
  one for which the address lookup brought route data
  (\<^verbatim>\<open>IBV_TRANSPORT_IB == transport_type && ai_route_len > 0\<close>), for each wait its start
  time and its passes, and the address and remote key of the sink buffer.
\<close>

record hs_env =
  port :: u16
  hostname_given :: bool
  answers :: "call \<Rightarrow> bool"
  resize_source :: "resize_call \<Rightarrow> bool"
  resize_sink :: "resize_call \<Rightarrow> bool"
  ib_route :: bool
  addr_wait :: "int \<times> tick list"
  route_wait :: "int \<times> tick list"
  established_wait :: "int \<times> tick list"
  setup_wait :: "int \<times> tick list"
  sink_base :: u64
  sink_rkey :: u64

type_synonym step = "conn \<Rightarrow> (bool \<times> conn) option"

text \<open>A sequence of steps each followed by \<^verbatim>\<open>goto err\<close> when it fails.\<close>

fun run_steps :: "step list \<Rightarrow> step" where
  "run_steps [] s = Some (True, s)"
| "run_steps (f # fs) s =
     (case f s of
        None \<Rightarrow> None
      | Some (False, s1) \<Rightarrow> Some (False, s1)
      | Some (True, s1) \<Rightarrow> run_steps fs s1)"

definition lookupAddress :: "hs_env \<Rightarrow> conn \<Rightarrow> bool \<times> conn" where
  "lookupAddress env s =
     (if hostname_given env then
        (if answers env Rdma_getaddrinfo then (True, s\<lparr>rai := True\<rparr>) else (False, s))
      else (True, s))"

definition createNotifier :: "hs_env \<Rightarrow> conn \<Rightarrow> bool \<times> conn" where
  "createNotifier env s =
     (if answers env Epoll_create then (True, s\<lparr>notifier := True\<rparr>) else (False, s))"

definition createEventChannel :: "hs_env \<Rightarrow> conn \<Rightarrow> bool \<times> conn" where
  "createEventChannel env s =
     (if \<not> answers env Rdma_create_event_channel then (False, s)
      else (answers env Epoll_ctl_cm, s\<lparr>cm := True\<rparr>))"

definition createId :: "hs_env \<Rightarrow> conn \<Rightarrow> bool \<times> conn" where
  "createId env s =
     (if answers env Rdma_create_id then (True, s\<lparr>cm_id := True\<rparr>) else (False, s))"

definition resolveAddress :: "globals \<Rightarrow> hs_env \<Rightarrow> step" where
  "resolveAddress g env s =
     (if \<not> answers env Rdma_resolve_addr then Some (False, s)
      else waitForCMEvent g RDMA_CM_EVENT_ADDR_RESOLVED (addr_wait env) s)"

definition initVerbs :: "hs_env \<Rightarrow> conn \<Rightarrow> bool \<times> conn" where
  "initVerbs env s =
     (if \<not> answers env Ibv_alloc_pd then (False, s)
      else
        (let s1 = s\<lparr>pd := True\<rparr> in
         if \<not> answers env Ibv_create_comp_channel then (False, s1)
         else
           (let s2 = s1\<lparr>cc := True\<rparr> in
            if \<not> answers env Epoll_ctl_cc then (False, s2)
            else if \<not> answers env Ibv_create_cq then (False, s2)
            else
              (let s3 = s2\<lparr>cq := True\<rparr> in
               if \<not> answers env Ibv_req_notify_cq then (False, s3)
               else (True, s3\<lparr>wcs := True\<rparr>)))))"

definition createQP :: "hs_env \<Rightarrow> conn \<Rightarrow> bool \<times> conn" where
  "createQP env s = (answers env Rdma_create_qp, s)"

definition createBytesAvailableFD :: "hs_env \<Rightarrow> conn \<Rightarrow> bool \<times> conn" where
  "createBytesAvailableFD env s =
     (if \<not> answers env Pipe_create then (False, s)
      else (answers env Epoll_ctl_pipe, s\<lparr>pipe_fd := True, pipe := []\<rparr>))"

text \<open>\<^verbatim>\<open>BufferPool::resize\<close> of the message pool, with one answer for its allocations.\<close>

definition msgbuf_resize :: "bool \<Rightarrow> u32 \<Rightarrow> conn \<Rightarrow> bool \<times> conn" where
  "msgbuf_resize ok num_bufs s =
     (let s0 = (release MsgBuf (msgbuf s \<noteq> 0) s)\<lparr>msgbuf := 0\<rparr> in
      if num_bufs \<noteq> 0 then (ok, s0\<lparr>msgbuf := num_bufs\<rparr>) else (True, s0))"

definition initBuffers :: "globals \<Rightarrow> hs_env \<Rightarrow> conn \<Rightarrow> bool \<times> conn" where
  "initBuffers g env s =
     (let rbs = (scast (1024 * 1024 * IATTR_RDMA_RING_BUFFER_SIZE_MB g) :: u64) in
      if 0 = rbs then (False, s)
      else
        (case rb_resize (resize_source env) rbs (sourcebuf s) of
           (False, b) \<Rightarrow> (False, s\<lparr>sourcebuf := b\<rparr>)
         | (True, b) \<Rightarrow>
             (let s1 = s\<lparr>sourcebuf := b\<rparr> in
              case rb_resize (resize_sink env) rbs (sinkbuf s1) of
                (False, b') \<Rightarrow> (False, s1\<lparr>sinkbuf := b'\<rparr>)
              | (True, b') \<Rightarrow>
                  (let s2 = s1\<lparr>sinkbuf := b'\<rparr>;
                       s3 = s2\<lparr>sourceptr := rp_clear (ucast (rb_size (sourcebuf s2)))\<rparr>;
                       s4 = s3\<lparr>sinkptr := rp_clear (ucast (rb_size (sinkbuf s3)))\<rparr>
                   in msgbuf_resize (answers env Resize_msgbuf) (depth s4 * 2) s4))))"

text \<open>
  \<^verbatim>\<open>_resolveRoute\<close>: with route data for an InfiniBand device it hands the route
  to \<^verbatim>\<open>rdma_set_option\<close> and returns without resolving and without waiting.
\<close>

definition resolveRoute :: "globals \<Rightarrow> hs_env \<Rightarrow> step" where
  "resolveRoute g env s =
     (if ib_route env then
        (if \<not> answers env Rdma_set_option then Some (False, s) else Some (True, s))
      else if \<not> answers env Rdma_resolve_route then Some (False, s)
      else waitForCMEvent g RDMA_CM_EVENT_ROUTE_RESOLVED (route_wait env) s)"

definition own_cpd :: "conn \<Rightarrow> RDMAConnParamData" where
  "own_cpd s = \<lparr>magic = RDMA_PROTOCOL_MAGIC, version = RDMA_PROTOCOL_VERSION,
                 cpd_depth = depth s\<rparr>"

text \<open>\<^verbatim>\<open>RDMAConnection::_connect\<close>.\<close>

definition connect_impl :: "globals \<Rightarrow> hs_env \<Rightarrow> step" where
  "connect_impl g env s =
     (let s1 = s\<lparr>cpd := own_cpd s\<rparr> in
      if \<not> answers env Rdma_connect then Some (False, s1)
      else waitForCMEvent g RDMA_CM_EVENT_ESTABLISHED (established_wait env) s1)"

definition migrateId :: "hs_env \<Rightarrow> conn \<Rightarrow> bool \<times> conn" where
  "migrateId env s = (answers env Rdma_migrate_id, s)"

definition accept :: "globals \<Rightarrow> hs_env \<Rightarrow> step" where
  "accept g env s =
     (let s1 = s\<lparr>cpd := own_cpd s\<rparr> in
      if \<not> answers env Rdma_accept then Some (False, s1)
      else waitForCMEvent g RDMA_CM_EVENT_ESTABLISHED (established_wait env) s1)"

definition reject :: "hs_env \<Rightarrow> conn \<Rightarrow> bool \<times> conn" where
  "reject env s = (answers env Rdma_reject_call, emit Rdma_reject s)"

text \<open>
  The test \<^verbatim>\<open>RDMA_PROTOCOL_MAGIC != cpd.magic || RDMA_PROTOCOL_VERSION != cpd.version\<close>
  of \<^verbatim>\<open>connect\<close> (on \<^verbatim>\<open>_cpd\<close>) and of \<^verbatim>\<open>_finishAccept\<close> (on its argument), as a
  step that fails on a mismatch.
\<close>

definition protocol_matches :: "RDMAConnParamData \<Rightarrow> bool" where
  "protocol_matches d \<longleftrightarrow>
     (if RDMA_PROTOCOL_MAGIC \<noteq> magic d then False
      else if RDMA_PROTOCOL_VERSION \<noteq> version d then False else True)"

definition connect_steps :: "globals \<Rightarrow> hs_env \<Rightarrow> step list" where
  "connect_steps g env =
     [\<lambda>s. (case lookupAddress env s of (ok, s1) \<Rightarrow> Some (ok \<and> rai s1, s1)),
      \<lambda>s. Some (createNotifier env s),
      \<lambda>s. Some (createEventChannel env s),
      \<lambda>s. Some (createId env s),
      resolveAddress g env,
      \<lambda>s. Some (initProtocol (IATTR_RDMA_SEND_QUEUE_DEPTH g) s),
      \<lambda>s. Some (initVerbs env s),
      \<lambda>s. Some (createQP env s),
      \<lambda>s. Some (createBytesAvailableFD env s),
      \<lambda>s. Some (initBuffers g env s),
      resolveRoute g env,
      \<lambda>s. Some (postReceives (answers env Ibv_post_recv_initial) (depth s) s),
      connect_impl g env,
      \<lambda>s. Some (protocol_matches (cpd s), s),
      \<lambda>s. Some (postSetup (answers env Rdma_post_send_setup) (sink_base env) (sink_rkey env) s),
      waitRecvSetup g (setup_wait env)]"

definition connect :: "globals \<Rightarrow> hs_env \<Rightarrow> conn \<Rightarrow> (bool \<times> conn) option" where
  "connect g env s =
     (if STATE_CLOSED \<noteq> state s then Some (False, s)
      else if 0 = port env then Some (False, s)
      else
        (case run_steps (connect_steps g env) (setState STATE_CONNECTING (cleanup s)) of
           None \<Rightarrow> None
         | Some (False, s1) \<Rightarrow> Some (False, close s1)
         | Some (True, s1) \<Rightarrow> Some (True, setState STATE_CONNECTED s1)))"

text \<open>
  \<^verbatim>\<open>_finishAccept\<close>: the steps up to \<^verbatim>\<open>_postReceives\<close> leave by \<^verbatim>\<open>err_reject\<close>,
  the later ones by \<^verbatim>\<open>err\<close>.
\<close>

definition accept_steps_reject :: "globals \<Rightarrow> hs_env \<Rightarrow> RDMAConnParamData \<Rightarrow> step list" where
  "accept_steps_reject g env d =
     [\<lambda>s. Some (protocol_matches d, s),
      \<lambda>s. Some (createNotifier env s),
      \<lambda>s. Some (createEventChannel env s),
      \<lambda>s. Some (migrateId env s),
      \<lambda>s. Some (initProtocol (cpd_depth d) s),
      \<lambda>s. Some (initVerbs env s),
      \<lambda>s. Some (createQP env s),
      \<lambda>s. Some (createBytesAvailableFD env s),
      \<lambda>s. Some (initBuffers g env s),
      \<lambda>s. Some (postReceives (answers env Ibv_post_recv_initial) (depth s) s)]"

definition accept_steps :: "globals \<Rightarrow> hs_env \<Rightarrow> step list" where
  "accept_steps g env =
     [accept g env,
      waitRecvSetup g (setup_wait env),
      \<lambda>s. Some (postSetup (answers env Rdma_post_send_setup) (sink_base env) (sink_rkey env) s)]"

definition finishAccept :: "globals \<Rightarrow> hs_env \<Rightarrow> RDMAConnParamData \<Rightarrow> conn
    \<Rightarrow> (bool \<times> conn) option" where
  "finishAccept g env d s =
     (let s0 = (setState STATE_CONNECTING s)\<lparr>cm_id := True\<rparr> in
      case run_steps (accept_steps_reject g env d) s0 of
        None \<Rightarrow> None
      | Some (False, s1) \<Rightarrow> Some (False, close (snd (reject env s1)))
      | Some (True, s1) \<Rightarrow>
          (case run_steps (accept_steps g env) s1 of
             None \<Rightarrow> None
           | Some (False, s2) \<Rightarrow> Some (False, close s2)
           | Some (True, s2) \<Rightarrow> Some (True, setState STATE_CONNECTED s2)))"

subsection \<open>Predicates of the statements\<close>

text \<open>Nothing \<^verbatim>\<open>_cleanup\<close> releases is held any more.\<close>

definition released :: "conn \<Rightarrow> bool" where
  "released s \<longleftrightarrow>
     (if cm_id s then False else if cq s then False else if cc s then False
      else if pd s then False else if cm s then False else if rai s then False
      else if notifier s then False else if wcs s then False
      else if rb_held (sourcebuf s) then False else if rb_held (sinkbuf s) then False
      else msgbuf s = 0)"

text \<open>
  What no polling step changes: the state, the depth, the handshake data, the two ring
  buffers and the sizes of their rings, the tail of the sink ring, the head and middle
  of the source ring, and the descriptors of the pipe.
\<close>

definition same_core :: "conn \<Rightarrow> conn \<Rightarrow> bool" where
  "same_core s s' \<longleftrightarrow>
     state s' = state s \<and> depth s' = depth s \<and> cpd s' = cpd s
     \<and> rp_tail (sinkptr s') = rp_tail (sinkptr s)
     \<and> rp_head (sourceptr s') = rp_head (sourceptr s)
     \<and> rp_middle (sourceptr s') = rp_middle (sourceptr s)
     \<and> sinkbuf s' = sinkbuf s \<and> sourcebuf s' = sourcebuf s
     \<and> rp_size (sinkptr s') = rp_size (sinkptr s)
     \<and> rp_size (sourceptr s') = rp_size (sourceptr s)
     \<and> pipe_fd s' = pipe_fd s"

text \<open>
  A ring buffer as \<^verbatim>\<open>_initBuffers\<close> sets it up: mapped, not empty, of a size
  that fits 32 bits, with ring pointers of the same size.
\<close>

definition ring_ok :: "RingBuffer \<Rightarrow> ringptr \<Rightarrow> u8 list \<Rightarrow> bool" where
  "ring_ok b p pg \<longleftrightarrow>
     rb_pages b = Some pg \<and> length pg = unat (rb_size b) \<and> rp_size p = ucast (rb_size b)
     \<and> 0 < unat (rb_size b) \<and> unat (rb_size b) < 2 ^ 32"

text \<open>
  What a connection that is not closed has to tell its collaborators when it is torn
  down: the two state changes, the disconnect when it is established, and the release of
  each resource it holds, with the acknowledgement of the completion events.
\<close>

definition teardown :: "conn \<Rightarrow> effect list" where
  "teardown s =
     (if state s \<noteq> STATE_CLOSING then [FireStateChanged STATE_CLOSING] else [])
     @ (if established s then [Rdma_disconnect] else [])
     @ [FireStateChanged STATE_CLOSED]
     @ (if rb_held (sourcebuf s) then [Release SourceBuf] else [])
     @ (if rb_held (sinkbuf s) then [Release SinkBuf] else [])
     @ (if msgbuf s \<noteq> 0 then [Release MsgBuf] else [])
     @ (if completions s > 0 then [Ibv_ack_cq_events (completions s)] else [])
     @ (if wcs s then [Release Wcs] else [])
     @ (if cm_id s then [Release CmId] else [])
     @ (if cq s then [Release Cq] else [])
     @ (if cc s then [Release Cc] else [])
     @ (if pd s then [Release Pd] else [])
     @ (if cm s then [Release Cm] else [])
     @ (if rai s then [Release Rai] else [])
     @ (if notifier s then [Release Notifier] else [])"


text \<open>The first \<open>n\<close> reads of the pipe bring a whole value and the polls after them succeed.\<close>

definition reads_full :: "pipe_answer list \<Rightarrow> nat \<Rightarrow> bool" where
  "reads_full reads n \<longleftrightarrow>
     n \<le> length reads
     \<and> list_all (\<lambda>a. pipe_read a = Read_full \<and> pipe_poll_ok a) (take n reads)"


text \<open>
  The connection parameters \<^verbatim>\<open>_doCMEvent\<close> keeps from an ESTABLISHED event: the private
  data of the event, or the zeroed block when the event carries none.
\<close>

definition received :: "rdma_cm_event \<Rightarrow> RDMAConnParamData" where
  "received e = (case private_data e of None \<Rightarrow> zero_cpd | Some d \<Rightarrow> d)"

subsection \<open>Example inputs\<close>

text \<open>A connected connection that holds an endpoint and a completion queue.\<close>

definition busy_conn :: conn where
  "busy_conn = new_conn\<lparr>state := STATE_CONNECTED, established := True, cm_id := True,
     cq := True\<rparr>"

definition example_globals :: globals where
  "example_globals = \<lparr>timeout = 100, EQ_TIMEOUT_INDEFINITE = 0, WRAP = False,
     IATTR_RDMA_SEND_QUEUE_DEPTH = 16, IATTR_RDMA_RING_BUFFER_SIZE_MB = 1\<rparr>"

text \<open>A pass in which nothing happens, and one in which the peer's disconnect arrives.\<close>

definition quiet_tick :: tick where
  "quiet_tick = \<lparr>epoll_ok = True, cq_ready = False, cm_ready = False, cm_event = None,
     get_cq_event_ok = True, req_notify_ok = True, polls = [Polled [] True],
     pipe_reads = [\<lparr>pipe_read = Read_full, pipe_poll_ok = True\<rparr>], pipe_write_ok = True, post_send_ok = True, now = 0\<rparr>"

definition disconnect_tick :: tick where
  "disconnect_tick = quiet_tick\<lparr>cm_ready := True,
     cm_event := Some \<lparr>event = RDMA_CM_EVENT_DISCONNECTED, private_data = None\<rparr>\<rparr>"

text \<open>
  A pass in which \<^verbatim>\<open>ibv_post_send\<close> fails, and one in which \<^verbatim>\<open>epoll_wait\<close> does.
\<close>

definition failing_post_tick :: tick where
  "failing_post_tick = quiet_tick\<lparr>post_send_ok := False\<rparr>"


text \<open>
  A connected connection as the handshake leaves it, with a queue depth of 16, a source
  ring of eight bytes and a sink ring of four. Then: the same with nothing to read (as
  it is when the peer leaves), with three bytes to read, and with room to write.
\<close>

definition idle_conn :: conn where
  "idle_conn = new_conn\<lparr>state := STATE_CONNECTED, established := True, depth := 16,
     wcredits := 6, fcredits := 10,
     sourcebuf := \<lparr>rb_size = 8, rb_map = True, rb_pages = Some [0, 0, 0, 0, 0, 0, 0, 0],
                    rb_mr = True\<rparr>,
     sourceptr := rp_clear 8,
     sinkbuf := \<lparr>rb_size = 4, rb_map = True, rb_pages = Some [1, 2, 3, 4], rb_mr = True\<rparr>,
     sinkptr := rp_clear 4,
     rptr := rp_clear 8, rbase := 4096, rkey := 7, msgbuf := 32, pipe_fd := True,
     rai := True, cm := True, cm_id := True, cc := True, cq := True, pd := True, wcs := True,
     notifier := True\<rparr>"

definition eof_conn :: conn where
  "eof_conn = idle_conn"

definition reader_conn :: conn where
  "reader_conn = idle_conn\<lparr>sinkptr := \<lparr>rp_size = 4, rp_head = 3, rp_middle = 0, rp_tail = 0\<rparr>,
     pipe := [3]\<rparr>"

definition writer_conn :: conn where
  "writer_conn = idle_conn\<lparr>sourceptr := \<lparr>rp_size = 8, rp_head = 6, rp_middle = 6, rp_tail = 6\<rparr>\<rparr>"

text \<open>Two bytes to read that lie across the end of a ring of four.\<close>

definition wrapped_reader :: conn where
  "wrapped_reader = reader_conn\<lparr>sinkptr := \<lparr>rp_size = 4, rp_head = 5, rp_middle = 0, rp_tail = 3\<rparr>\<rparr>"


text \<open>
  A peer that answers every step of the handshake: one event per wait, the protocol's magic
  and version, a queue depth of 16; and a peer that announces version 2.
\<close>

definition cm_tick :: "rdma_cm_event_type \<Rightarrow> RDMAConnParamData option \<Rightarrow> tick" where
  "cm_tick ev d = quiet_tick\<lparr>cm_ready := True,
     cm_event := Some \<lparr>event = ev, private_data = d\<rparr>\<rparr>"

definition peer_setup :: RDMAMessage where
  "peer_setup = \<lparr>opcode = SETUP, length_msg = 24,
     payload_setup = \<lparr>setup_rbase = 4096, setup_rlen = 1048576, setup_rkey = 7\<rparr>,
     payload_fc = zero_fc\<rparr>"

definition setup_tick :: tick where
  "setup_tick = quiet_tick\<lparr>polls :=
     [Polled [\<lparr>status = IBV_WC_SUCCESS, wc_opcode = IBV_WC_RECV, imm_data = 0, wr_id = 0,
               wc_message = peer_setup, wc_pipe_ok = True\<rparr>] True,
      Polled [] True]\<rparr>"

definition peer_cpd :: RDMAConnParamData where
  "peer_cpd = \<lparr>magic = 0xC0, version = 0x03, cpd_depth = 16\<rparr>"

definition example_env :: hs_env where
  "example_env = \<lparr>port = 4242, hostname_given = True, answers = (\<lambda>c. True),
     resize_source = (\<lambda>c. True), resize_sink = (\<lambda>c. True), ib_route = False,
     addr_wait = (0, [cm_tick RDMA_CM_EVENT_ADDR_RESOLVED None]),
     route_wait = (0, [cm_tick RDMA_CM_EVENT_ROUTE_RESOLVED None]),
     established_wait = (0, [cm_tick RDMA_CM_EVENT_ESTABLISHED (Some peer_cpd)]),
     setup_wait = (0, [setup_tick]),
     sink_base = 8192, sink_rkey = 9\<rparr>"



section \<open>Properties\<close>

subsection \<open>Basic facts\<close>

lemma emit_fields [simp]:
  "state (emit e s) = state s" "established (emit e s) = established s"
  "trace (emit e s) = trace s @ [e]"
  by (simp_all add: emit_def)

lemma release_state [simp]: "state (release r h s) = state s"
  by (simp add: release_def)

lemma state_free: "(\<And>s. state (reset s) = state s) \<Longrightarrow> state (free r held reset s) = state s"
  by (simp add: free_def)

lemma state_ack [simp]: "state (ack_completions s) = state s"
  by (simp add: ack_completions_def)

lemma state_cleanup [simp]: "state (cleanup s) = state s"
  by (simp add: cleanup_def cleanup_steps_def state_free)

lemma state_disconnect [simp]: "state (disconnect s) = state s"
  by (simp add: disconnect_def)

lemma state_setState [simp]: "state (setState st s) = st"
  by (simp add: setState_def)

lemma state_close_impl [simp]: "state (close_impl s) = STATE_CLOSED"
  by (simp add: close_impl_def)

lemma close_impl_closed: "state s = STATE_CLOSED \<Longrightarrow> close_impl s = s"
  by (simp add: close_impl_def)

lemma close_impl_funpow_closed: "state s = STATE_CLOSED \<Longrightarrow> (close_impl ^^ n) s = s"
  by (induction n) (simp_all add: close_impl_closed)

lemma state_close [simp]: "state (close s) = STATE_CLOSED"
  by (simp add: close_def)

lemma release_alt: "release r h s = s\<lparr>trace := trace s @ (if h then [Release r] else [])\<rparr>"
  by (simp add: release_def emit_def)

lemma rb_held_clear [simp]: "\<not> rb_held (rb_clear b)"
  by (simp add: rb_held_def rb_clear_def)

lemma released_cleanup [simp]: "released (cleanup s)"
  by (simp add: released_def cleanup_def cleanup_steps_def free_def release_alt
      ack_completions_def emit_def)

lemma released_close_impl: "state s \<noteq> STATE_CLOSED \<Longrightarrow> released (close_impl s)"
  by (simp add: close_impl_def)

lemma released_new_conn: "released new_conn"
  by (simp add: released_def new_conn_def rb_held_def empty_rb_def)

lemma released_close: "state s \<noteq> STATE_CLOSED \<Longrightarrow> released (close s)"
  by (simp add: close_def released_close_impl)

subsection \<open>Teardown\<close>

text \<open>
  C9. \<^verbatim>\<open>_close\<close>, to which \<^verbatim>\<open>close()\<close> forwards, leaves the connection CLOSED; on
  a CLOSED connection any number of calls changes nothing at all (no member, and
  no call to a library, so nothing is released again); and \<open>n + 1\<close> calls in a row
  give exactly the connection, and the trace of library calls, that one call gives.
\<close>

theorem close_idempotent:
  "state (close_impl s) = STATE_CLOSED
   \<and> (state s = STATE_CLOSED \<longrightarrow> (close_impl ^^ n) s = s)
   \<and> (close_impl ^^ Suc n) s = close_impl s"
proof -
  have "(close_impl ^^ Suc n) s = (close_impl ^^ n) (close_impl s)"
    by (simp add: funpow_swap1)
  also have "\<dots> = close_impl s"
    by (rule close_impl_funpow_closed) (rule state_close_impl)
  finally show ?thesis
    by (simp add: close_impl_funpow_closed del: funpow.simps)
qed

lemma trace_close_busy:
  "trace (close_impl busy_conn) =
     [FireStateChanged STATE_CLOSING, Rdma_disconnect, FireStateChanged STATE_CLOSED,
      Release CmId, Release Cq]"
  by (simp add: busy_conn_def new_conn_def close_impl_def cleanup_def cleanup_steps_def free_def
      ack_completions_def disconnect_def setState_def
      release_def emit_def rb_held_def empty_rb_def rb_clear_def)

theorem close_idempotent_witness:
  "state (close_impl busy_conn) = STATE_CLOSED
   \<and> (close_impl ^^ 3) busy_conn = close_impl busy_conn
   \<and> trace ((close_impl ^^ 3) busy_conn) =
       [FireStateChanged STATE_CLOSING, Rdma_disconnect, FireStateChanged STATE_CLOSED,
        Release CmId, Release Cq]
   \<and> (close_impl ^^ 2) new_conn = new_conn"
proof -
  have "state new_conn = STATE_CLOSED" by (simp add: new_conn_def)
  then show ?thesis
    using close_idempotent [of busy_conn 2] close_idempotent [of new_conn 2] trace_close_busy
    by (simp add: numeral_3_eq_3 del: funpow.simps)
qed

subsection \<open>Credits\<close>

text \<open>
  C2. The credit invariant \<open>0 \<le> write_credits \<le> depth\<close>, \<open>0 \<le> fc_credits \<le> depth\<close>
  does not hold after \<^verbatim>\<open>_initProtocol\<close> for the depth 2, which \<^verbatim>\<open>_initProtocol\<close>
  accepts: the write credits are \<open>-1\<close> and the flow-control credits are \<open>3\<close>.
\<close>

theorem initProtocol_depth_2_credits:
  "fst (initProtocol 2 new_conn)
   \<and> sint (depth (snd (initProtocol 2 new_conn))) = 2
   \<and> sint (wcredits (snd (initProtocol 2 new_conn))) = - 1
   \<and> sint (fcredits (snd (initProtocol 2 new_conn))) = 3"
  by (simp add: initProtocol_def new_conn_def)


subsection \<open>Byte order and immediate data\<close>

lemmas bit_ops = bit_or_iff bit_push_bit_iff bit_take_bit_iff bit_drop_bit_eq possible_bit_word

lemma bit_htonl:
  "bit (htonl w) n \<longleftrightarrow>
     (if n < 8 then bit w (n + 24) else if n < 16 then bit w (n + 8)
      else if n < 24 then bit w (n - 8) else n < 32 \<and> bit w (n - 24))"
proof -
  consider "n < 8" | "8 \<le> n" "n < 16" | "16 \<le> n" "n < 24" | "24 \<le> n" "n < 32" | "32 \<le> n"
    by linarith
  then show ?thesis
  proof cases
    case 1
    then show ?thesis by (simp add: htonl_def bit_ops add.commute)
  next
    case 2
    then have "n - 16 = 0" "n - 24 = 0" "\<not> 16 \<le> n" "\<not> 24 \<le> n" "n - 8 < 8" by simp_all
    with 2 show ?thesis
      using bit_imp_possible_bit [of w "n + 24"]
      by (auto simp add: htonl_def bit_ops add.commute)
  next
    case 3
    then have "\<not> 24 \<le> n" "n - 16 < 8" "8 \<le> n" "\<not> n < 8" "\<not> n < 16" "n - 16 + 8 = n - 8"
      by simp_all
    with 3 show ?thesis
      using bit_imp_possible_bit [of w "24 + n"] bit_imp_possible_bit [of w "8 + n"]
      by (auto simp add: htonl_def bit_ops)
  next
    case 4
    then have "n - 24 < 8" "16 \<le> n" "8 \<le> n" "\<not> n < 8" "\<not> n < 16" "\<not> n < 24" by simp_all
    with 4 show ?thesis
      using bit_imp_possible_bit [of w "24 + n"] bit_imp_possible_bit [of w "8 + n"]
        bit_imp_possible_bit [of w "n - 8"]
      by (auto simp add: htonl_def bit_ops)
  next
    case 5
    then show ?thesis
      using bit_imp_possible_bit [of "htonl w" n] by (auto simp: possible_bit_word)
  qed
qed

lemma htonl_htonl: "htonl (htonl w) = w"
proof (rule bit_word_eqI)
  fix n assume "n < LENGTH(32)"
  then consider "n < 8" | "8 \<le> n" "n < 16" | "16 \<le> n" "n < 24" | "24 \<le> n" "n < 32"
    by fastforce
  then show "bit (htonl (htonl w)) n = bit w n"
  proof cases
    case 1
    then have "bit (htonl (htonl w)) n = bit (htonl w) (n + 24)" by (simp add: bit_htonl)
    also have "\<dots> = bit w n" using 1 by (simp add: bit_htonl)
    finally show ?thesis .
  next
    case 2
    then have "bit (htonl (htonl w)) n = bit (htonl w) (n + 8)" by (simp add: bit_htonl)
    also have "\<dots> = bit w n" using 2 by (simp add: bit_htonl)
    finally show ?thesis .
  next
    case 3
    then have "bit (htonl (htonl w)) n = bit (htonl w) (n - 8)" by (simp add: bit_htonl)
    also have "\<dots> = bit w (n - 8 + 8)" using 3 by (subst bit_htonl) auto
    also have "\<dots> = bit w n" using 3 by simp
    finally show ?thesis .
  next
    case 4
    then have "bit (htonl (htonl w)) n = bit (htonl w) (n - 24)" by (simp add: bit_htonl)
    also have "\<dots> = bit w (n - 24 + 24)" using 4 by (subst bit_htonl) auto
    also have "\<dots> = bit w n" using 4 by simp
    finally show ?thesis .
  qed
qed

lemma ntohl_htonl [simp]: "ntohl (htonl w) = w"
  by (simp add: ntohl_def htonl_htonl)








lemma unat_ucast_u32_u64: "unat (ucast (w::u32) :: u64) = unat w"
proof -
  have "unat w < 2 ^ 32" using unsigned_less [of w] by simp
  then have "unat w < 2 ^ 64" by simp
  then show ?thesis by (simp add: unsigned_ucast_eq take_bit_nat_eq_self)
qed



lemma recvRDMAWrite_effect_aux:
  assumes "x = imm_fc (ntohl imm)" "s' = recvRDMAWrite pipe_ok imm s"
  shows "sinkptr s' = incrHead (sinkptr s) (bytes_sent x)"
    and "available (sinkptr s') = available (sinkptr s) + bytes_sent x"
    and "pipe_ok \<Longrightarrow> signalled s' = signalled s + unat (bytes_sent x)"
    and "fcredits s' = fcredits s + fcs_received x"
    and "wcredits s' = wcredits s"
    and "writes s' = writes s + 1"
  using assms
  by (simp_all add: recvRDMAWrite_def Let_def incrAvailableBytes_def signalled_def
      unat_ucast_u32_u64 incrHead_def available_def available2_def)

lemma ntohl_example: "ntohl 0x05000010 = 0x10000005"
  by (simp add: ntohl_def htonl_def)

lemma imm_fc_example: "imm_fc 0x10000005 = \<lparr>bytes_sent = 5, fcs_received = 1\<rparr>"
  by (simp add: imm_fc_def)

lemma new_conn_fields:
  "signalled new_conn = 0" "fcredits new_conn = 0" "wcredits new_conn = 0"
  "available (sinkptr new_conn) = 0" "writes new_conn = 0"
  by (simp_all add: new_conn_def signalled_def available_def available2_def rp_clear_def)

text \<open>
  C4, as the code has it. For every immediate datum received, with \<open>bytes_sent\<close> and
  \<open>fcs_received\<close> the two fields unpacked from it: the head of the sink ring advances
  by \<open>bytes_sent\<close> (so the bytes available in the ring grow by it); when the write to
  the pipe succeeds, the available-bytes signal grows by exactly \<open>bytes_sent\<close>;
  \<open>fcs_received\<close> is added to the flow-control credits \<^verbatim>\<open>_fcredits\<close>; the write
  credits \<^verbatim>\<open>_wcredits\<close> stay as they are; and one more received write is counted.
\<close>

theorem recvRDMAWrite_effect:
  "(let x = imm_fc (ntohl imm); s' = recvRDMAWrite pipe_ok imm s in
      sinkptr s' = incrHead (sinkptr s) (bytes_sent x)
    \<and> available (sinkptr s') = available (sinkptr s) + bytes_sent x
    \<and> (pipe_ok \<longrightarrow> signalled s' = signalled s + unat (bytes_sent x))
    \<and> fcredits s' = fcredits s + fcs_received x
    \<and> wcredits s' = wcredits s
    \<and> writes s' = writes s + 1)"
  unfolding Let_def
  using recvRDMAWrite_effect_aux [OF refl refl, of pipe_ok imm s] by simp

theorem recvRDMAWrite_effect_witness:
  "signalled (recvRDMAWrite True 0x05000010 new_conn) = 5
   \<and> fcredits (recvRDMAWrite True 0x05000010 new_conn) = 1
   \<and> wcredits (recvRDMAWrite True 0x05000010 new_conn) = 0
   \<and> available (sinkptr (recvRDMAWrite True 0x05000010 new_conn)) = 5"
proof -
  have x: "imm_fc (ntohl 0x05000010) = \<lparr>bytes_sent = 5, fcs_received = 1\<rparr>"
    by (simp add: ntohl_example imm_fc_example)
  from recvRDMAWrite_effect [of "0x05000010" True new_conn]
  have "signalled (recvRDMAWrite True 0x05000010 new_conn) = signalled new_conn + 5
     \<and> fcredits (recvRDMAWrite True 0x05000010 new_conn) = fcredits new_conn + 1
     \<and> wcredits (recvRDMAWrite True 0x05000010 new_conn) = wcredits new_conn
     \<and> available (sinkptr (recvRDMAWrite True 0x05000010 new_conn))
         = available (sinkptr new_conn) + 5"
    by (auto simp add: Let_def x)
  then show ?thesis
    by (simp add: new_conn_fields)
qed

text \<open>
  C4 as stated fails: an immediate datum with \<open>bytes_sent = 5\<close> and \<open>fcs_received = 1\<close>
  (on the wire \<open>0x05000010\<close>) leaves the write credits of a fresh connection at 0,
  not at 1.
\<close>

theorem recvRDMAWrite_wcredits_counterexample:
  "wcredits (recvRDMAWrite True 0x05000010 new_conn)
     \<noteq> wcredits new_conn + fcs_received (imm_fc (ntohl 0x05000010))"
proof -
  have "fcs_received (imm_fc (ntohl 0x05000010)) = 1"
    by (simp add: ntohl_example imm_fc_example)
  moreover have "wcredits (recvRDMAWrite True 0x05000010 new_conn) = wcredits new_conn"
    by (rule recvRDMAWrite_effect_aux(5) [OF refl refl])
  ultimately show ?thesis
    by simp
qed

subsection \<open>Ring buffers\<close>

lemma poke_length [simp]: "length (poke n off xs pg) = length pg"
  by (induction xs arbitrary: off pg) simp_all

lemma poke_flat:
  "off + length xs \<le> length pg \<Longrightarrow> length pg = n \<Longrightarrow>
     poke n off xs pg = take off pg @ xs @ drop (off + length xs) pg"
proof (induction xs arbitrary: off pg)
  case Nil
  then show ?case by simp
next
  case (Cons x xs)
  from Cons.prems have lt: "off < length pg" and md: "off mod n = off" by simp_all
  have "poke n off (x # xs) pg = poke n (Suc off) xs (pg[off := x])"
    by (simp add: md)
  also have "\<dots> = take (Suc off) (pg[off := x]) @ xs @ drop (Suc off + length xs) (pg[off := x])"
    using Cons.prems by (intro Cons.IH) simp_all
  also have "take (Suc off) (pg[off := x]) = take off pg @ [x]"
    using lt by (simp add: take_Suc_conv_app_nth)
  also have "drop (Suc off + length xs) (pg[off := x]) = drop (Suc off + length xs) pg"
    by simp
  finally show ?case by simp
qed

lemma view_nth:
  "length pg = n \<Longrightarrow> k < 2 * n \<Longrightarrow> (pg @ pg) ! k = pg ! (k mod n)"
  by (cases "k < n") (simp_all add: nth_append le_mod_geq)

lemma slice_nth:
  "off + len \<le> length xs \<Longrightarrow> map (\<lambda>i. xs ! (off + i)) [0..<len] = take len (drop off xs)"
  by (rule nth_equalityI) simp_all

lemma rb_read_flat:
  "rb_pages b = Some pg \<Longrightarrow> off + len \<le> 2 * length pg \<Longrightarrow>
     rb_read b off len = take len (drop off (pg @ pg))"
  unfolding rb_read_def rb_view_def by (simp add: slice_nth del: drop_append take_append)

lemma rb_read_wrap:
  "rb_pages b = Some pg \<Longrightarrow> off + len \<le> 2 * length pg \<Longrightarrow>
     rb_read b off len = map (\<lambda>i. pg ! ((off + i) mod length pg)) [0..<len]"
  by (auto simp add: rb_read_def rb_view_def view_nth)

lemma buffer_bytes_length [simp]: "length (buffer_bytes buffer n) = n"
  by (simp add: buffer_bytes_def)


lemma rb_read_length [simp]: "length (rb_read b off n) = n"
  by (simp add: rb_read_def)

lemma unat_min: "unat (min a b) = min (unat a) (unat (b::'a::len word))"
  by (simp add: min_def word_le_nat_alt)

lemma ptr_less:
  assumes "rp_size p \<noteq> 0"
  shows "unat (ptr p w) < unat (rp_size p)"
  using assms unfolding ptr_def
  by (simp add: unat_mod_distrib unat_gt_0)

lemma room_to_end:
  fixes n :: u64 and q :: u32
  assumes "unat n < 2 ^ 32" "unat q < unat n"
  shows "unat (ucast (n - ucast q) :: u32) = unat n - unat q"
proof -
  have "unat q < 2 ^ 32"
    using unsigned_less [of q] by simp
  then have "unat q < 2 ^ 64"
    by simp
  then have q: "unat (ucast q :: u64) = unat q"
    by (simp add: unsigned_ucast_eq take_bit_nat_eq_self)
  have "ucast q \<le> n"
    using assms q by (simp add: word_le_nat_alt)
  then have "unat (n - ucast q) = unat n - unat q"
    using q by (simp add: unat_sub)
  moreover have "unat (ucast (n - ucast q) :: u32) = unat (n - ucast q) mod 2 ^ 32"
    by (simp add: unsigned_ucast_eq take_bit_eq_mod)
  ultimately show ?thesis using assms by simp
qed

lemma fill_nowrap:
  assumes pg: "rb_pages (sourcebuf s) = Some pg"
    and len: "length pg = unat (rb_size (sourcebuf s))"
    and sz: "rp_size (sourceptr s) = ucast (rb_size (sourcebuf s))"
    and nz: "rb_size (sourcebuf s) \<noteq> 0"
    and small: "unat (rb_size (sourcebuf s)) < 2 ^ 32"
    and f: "fill False buffer bytes s = (b, s')"
  shows "unat b = min (unat bytes) (min (unat (negAvailable (sourceptr s)))
            (min (unat (negAvailable (rptr s))) (length pg - unat (ptr (sourceptr s) HEAD))))"
    and "unat (ptr (sourceptr s) HEAD) + unat b \<le> length pg"
    and "rb_pages (sourcebuf s') =
           Some (take (unat (ptr (sourceptr s) HEAD)) pg @ buffer_bytes buffer (unat b)
                 @ drop (unat (ptr (sourceptr s) HEAD) + unat b) pg)"
    and "sourceptr s' = incrHead (sourceptr s) b"
proof -
  let ?off = "unat (ptr (sourceptr s) HEAD)"
  have usz: "unat (rp_size (sourceptr s)) = unat (rb_size (sourcebuf s))"
    using small by (simp add: sz unsigned_ucast_eq take_bit_nat_eq_self)
  then have "rp_size (sourceptr s) \<noteq> 0"
    using nz by (metis unat_eq_zero)
  then have off: "?off < unat (rb_size (sourcebuf s))"
    using ptr_less [of "sourceptr s" HEAD] usz by simp
  have room: "unat (ucast (rb_size (sourcebuf s) - ucast (ptr (sourceptr s) HEAD)) :: u32)
                = length pg - ?off"
    using room_to_end [OF small off] len by simp
  have b: "b = min (min bytes (min (negAvailable (sourceptr s)) (negAvailable (rptr s))))
                 (ucast (rb_size (sourcebuf s) - ucast (ptr (sourceptr s) HEAD)))"
    using f by (simp add: fill_def Let_def)
  show ub: "unat b = min (unat bytes) (min (unat (negAvailable (sourceptr s)))
            (min (unat (negAvailable (rptr s))) (length pg - ?off)))"
    by (simp add: b unat_min room min.assoc)
  show le: "?off + unat b \<le> length pg"
    using ub off len by simp
  have s': "s' = (s\<lparr>sourcebuf := rb_write (sourcebuf s) ?off (buffer_bytes buffer (unat b))\<rparr>)
                   \<lparr>sourceptr := incrHead (sourceptr s) b\<rparr>"
    using f b by (simp add: fill_def Let_def)
  show "rb_pages (sourcebuf s') =
           Some (take ?off pg @ buffer_bytes buffer (unat b) @ drop (?off + unat b) pg)"
    using le by (simp add: s' rb_write_def pg len [symmetric] poke_flat)
  show "sourceptr s' = incrHead (sourceptr s) b"
    by (simp add: s')
qed

lemma drain_props:
  assumes "drain n s = (b, out, s')"
  shows "b = min n (available (sinkptr s))" "length out = unat b"
    "s' = s\<lparr>sinkptr := incrTail (sinkptr s) b\<rparr>"
  using assms by (auto simp add: drain_def Let_def)

lemma drain_flat:
  assumes ok: "ring_ok (sinkbuf s) (sinkptr s) pg"
    and av: "unat (available (sinkptr s)) \<le> length pg"
    and d: "drain n s = (b, out, s')"
  shows "out = take (unat b) (drop (unat (tail (sinkptr s))) (pg @ pg))"
    and "out = map (\<lambda>i. pg ! ((unat (tail (sinkptr s)) + i) mod length pg)) [0..<unat b]"
proof -
  let ?off = "unat (tail (sinkptr s))"
  from ok have pg: "rb_pages (sinkbuf s) = Some pg"
    and len: "length pg = unat (rb_size (sinkbuf s))"
    and sz: "rp_size (sinkptr s) = ucast (rb_size (sinkbuf s))"
    and nz: "0 < unat (rb_size (sinkbuf s))" and small: "unat (rb_size (sinkbuf s)) < 2 ^ 32"
    by (simp_all add: ring_ok_def)
  have usz: "unat (rp_size (sinkptr s)) = length pg"
    using small by (simp add: sz len unsigned_ucast_eq take_bit_nat_eq_self)
  then have "0 < unat (rp_size (sinkptr s))"
    using nz len by simp
  then have "rp_size (sinkptr s) \<noteq> 0"
    by (simp add: unat_gt_0)
  then have off: "?off < length pg"
    using ptr_less [of "sinkptr s" TAIL] usz by (simp add: tail_def)
  have "b \<le> available (sinkptr s)"
    by (simp add: drain_props(1) [OF d])
  then have "unat b \<le> length pg"
    using av by (simp add: word_le_nat_alt)
  with off have fits: "?off + unat b \<le> 2 * length pg" by simp
  have out: "out = rb_read (sinkbuf s) ?off (unat b)"
    using d by (auto simp add: drain_def Let_def)
  show "out = take (unat b) (drop ?off (pg @ pg))"
    unfolding out by (rule rb_read_flat [OF pg fits])
  show "out = map (\<lambda>i. pg ! ((?off + i) mod length pg)) [0..<unat b]"
    unfolding out by (rule rb_read_wrap [OF pg fits])
qed

lemma fill_nowrap':
  assumes ok: "ring_ok (sourcebuf s) (sourceptr s) pg"
    and f: "fill False buffer n s = (b, s')"
  shows "unat b = min (unat n) (min (unat (negAvailable (sourceptr s)))
            (min (unat (negAvailable (rptr s))) (length pg - unat (ptr (sourceptr s) HEAD))))
       \<and> unat (ptr (sourceptr s) HEAD) + unat b \<le> length pg
       \<and> rb_pages (sourcebuf s') =
           Some (take (unat (ptr (sourceptr s) HEAD)) pg @ buffer_bytes buffer (unat b)
                 @ drop (unat (ptr (sourceptr s) HEAD) + unat b) pg)"
proof -
  from ok have pg: "rb_pages (sourcebuf s) = Some pg"
    and len: "length pg = unat (rb_size (sourcebuf s))"
    and sz: "rp_size (sourceptr s) = ucast (rb_size (sourcebuf s))"
    and nz: "0 < unat (rb_size (sourcebuf s))" and small: "unat (rb_size (sourcebuf s)) < 2 ^ 32"
    by (simp_all add: ring_ok_def)
  from nz have nz': "rb_size (sourcebuf s) \<noteq> 0" by (simp add: unat_gt_0)
  note r = fill_nowrap [OF pg len sz nz' small f]
  from r(1) r(2) r(3) show ?thesis by (intro conjI)
qed

lemma fill_example:
  "fill False [1, 2, 3, 4] 4 writer_conn
     = (2, writer_conn\<lparr>sourcebuf := \<lparr>rb_size = 8, rb_map = True,
                                       rb_pages = Some [0, 0, 0, 0, 0, 0, 1, 2],
                                       rb_mr = True\<rparr>,
                       sourceptr := \<lparr>rp_size = 8, rp_head = 8, rp_middle = 6, rp_tail = 6\<rparr>\<rparr>)"
  by code_simp

lemma drain_example:
  "drain 2 reader_conn
     = (2, [1, 2], reader_conn\<lparr>sinkptr := \<lparr>rp_size = 4, rp_head = 3, rp_middle = 0, rp_tail = 2\<rparr>\<rparr>)"
  by code_simp

lemma ring_ok_examples:
  "ring_ok (sinkbuf wrapped_reader) (sinkptr wrapped_reader) [1, 2, 3, 4]"
  "unat (available (sinkptr wrapped_reader)) \<le> length [1, 2, 3, 4 :: u8]"
  "ring_ok (sourcebuf writer_conn) (sourceptr writer_conn) [0, 0, 0, 0, 0, 0, 0, 0]"
  "rb_pages (sinkbuf wrapped_reader) = Some [1, 2, 3, 4]"
  by (simp_all add: ring_ok_def wrapped_reader_def reader_conn_def writer_conn_def idle_conn_def
      new_conn_def
      available_def available2_def)

lemma drain_wrapped_example:
  "drain 2 wrapped_reader = (2, [4, 1], wrapped_reader\<lparr>sinkptr := \<lparr>rp_size = 4, rp_head = 5, rp_middle = 0, rp_tail = 5\<rparr>\<rparr>)"
  by code_simp

text \<open>
  C8, as the code has it. A read of \<open>len\<close> bytes at offset \<open>off\<close> that stays inside the
  double mapping is one flat slice \<open>[off, off + len)\<close> of the view, and its bytes
  are those of the ring from \<open>off\<close> on, taken around the end. \<^verbatim>\<open>_drain\<close> reads its
  \<open>min(requested, available)\<close> bytes as such a slice, also across the end of the
  buffer. \<^verbatim>\<open>_fill\<close>, in the build without \<^verbatim>\<open>WRAP\<close>, copies
  \<open>min(requested, free space of the source ring, free space believed of the remote
  ring, bytes from the head offset to the end of the buffer)\<close> bytes, in one copy
  that ends at or before the end of the buffer: a window that would wrap is cut
  there.
\<close>

theorem ring_access_flat:
  "(rb_pages rb = Some pg \<longrightarrow> off + len \<le> 2 * length pg \<longrightarrow>
      rb_read rb off len = take len (drop off (rb_view rb))
    \<and> rb_read rb off len = map (\<lambda>i. pg ! ((off + i) mod length pg)) [0..<len])
   \<and> (ring_ok (sinkbuf s) (sinkptr s) pg \<longrightarrow> unat (available (sinkptr s)) \<le> length pg \<longrightarrow>
        (case drain n s of (b, out, s') \<Rightarrow>
           b = min n (available (sinkptr s))
         \<and> out = take (unat b) (drop (unat (tail (sinkptr s))) (rb_view (sinkbuf s)))))
   \<and> (ring_ok (sourcebuf s) (sourceptr s) pg \<longrightarrow>
        (case fill False buffer n s of (b, s') \<Rightarrow>
           unat b = min (unat n) (min (unat (negAvailable (sourceptr s)))
                      (min (unat (negAvailable (rptr s)))
                           (length pg - unat (ptr (sourceptr s) HEAD))))
         \<and> unat (ptr (sourceptr s) HEAD) + unat b \<le> length pg
         \<and> rb_pages (sourcebuf s') =
             Some (take (unat (ptr (sourceptr s) HEAD)) pg @ buffer_bytes buffer (unat b)
                   @ drop (unat (ptr (sourceptr s) HEAD) + unat b) pg)))"
proof (intro conjI impI)
  assume a: "rb_pages rb = Some pg" "off + len \<le> 2 * length pg"
  then show "rb_read rb off len = take len (drop off (rb_view rb))"
    using rb_read_flat [OF a] by (simp add: rb_view_def)
  from a show "rb_read rb off len = map (\<lambda>i. pg ! ((off + i) mod length pg)) [0..<len]"
    by (rule rb_read_wrap)
next
  assume a: "ring_ok (sinkbuf s) (sinkptr s) pg" "unat (available (sinkptr s)) \<le> length pg"
  obtain b out s' where d: "drain n s = (b, out, s')"
    by (cases "drain n s") auto
  from a(1) have "rb_view (sinkbuf s) = pg @ pg"
    by (simp add: ring_ok_def rb_view_def)
  with drain_flat(1) [OF a d] drain_props(1) [OF d] d
  show "case drain n s of (b, out, s') \<Rightarrow>
           b = min n (available (sinkptr s))
         \<and> out = take (unat b) (drop (unat (tail (sinkptr s))) (rb_view (sinkbuf s)))"
    by simp
next
  assume a: "ring_ok (sourcebuf s) (sourceptr s) pg"
  obtain b s' where f: "fill False buffer n s = (b, s')"
    by (cases "fill False buffer n s") auto
  from fill_nowrap' [OF a f] f
  show "case fill False buffer n s of (b, s') \<Rightarrow>
           unat b = min (unat n) (min (unat (negAvailable (sourceptr s)))
                      (min (unat (negAvailable (rptr s)))
                           (length pg - unat (ptr (sourceptr s) HEAD))))
         \<and> unat (ptr (sourceptr s) HEAD) + unat b \<le> length pg
         \<and> rb_pages (sourcebuf s') =
             Some (take (unat (ptr (sourceptr s) HEAD)) pg @ buffer_bytes buffer (unat b)
                   @ drop (unat (ptr (sourceptr s) HEAD) + unat b) pg)"
    by simp
qed

theorem ring_access_flat_witness:
  "rb_pages (sinkbuf wrapped_reader) = Some [1, 2, 3, 4]
   \<and> 3 + 2 \<le> 2 * length [1, 2, 3, 4 :: u8]
   \<and> rb_read (sinkbuf wrapped_reader) 3 2 = [4, 1]
   \<and> ring_ok (sinkbuf wrapped_reader) (sinkptr wrapped_reader) [1, 2, 3, 4]
   \<and> unat (available (sinkptr wrapped_reader)) \<le> length [1, 2, 3, 4 :: u8]
   \<and> (case drain 2 wrapped_reader of (b, out, s') \<Rightarrow>
           b = min 2 (available (sinkptr wrapped_reader))
         \<and> out = take (unat b) (drop (unat (tail (sinkptr wrapped_reader)))
                                  (rb_view (sinkbuf wrapped_reader))))
   \<and> fst (snd (drain 2 wrapped_reader)) = [4, 1]
   \<and> ring_ok (sourcebuf writer_conn) (sourceptr writer_conn) [0, 0, 0, 0, 0, 0, 0, 0]
   \<and> (case fill False [1, 2, 3, 4] 4 writer_conn of (b, s') \<Rightarrow>
           unat b = min (unat (4 :: u32)) (min (unat (negAvailable (sourceptr writer_conn)))
                      (min (unat (negAvailable (rptr writer_conn)))
                           (length [0, 0, 0, 0, 0, 0, 0, 0 :: u8]
                              - unat (ptr (sourceptr writer_conn) HEAD))))
         \<and> unat (ptr (sourceptr writer_conn) HEAD) + unat b
             \<le> length [0, 0, 0, 0, 0, 0, 0, 0 :: u8]
         \<and> rb_pages (sourcebuf s') =
             Some (take (unat (ptr (sourceptr writer_conn) HEAD)) [0, 0, 0, 0, 0, 0, 0, 0]
                   @ buffer_bytes [1, 2, 3, 4] (unat b)
                   @ drop (unat (ptr (sourceptr writer_conn) HEAD) + unat b)
                       [0, 0, 0, 0, 0, 0, 0, 0]))
   \<and> fst (fill False [1, 2, 3, 4] 4 writer_conn) = 2"
proof -
  have fits: "3 + 2 \<le> 2 * length [1, 2, 3, 4 :: u8]" by simp
  have "rb_read (sinkbuf wrapped_reader) 3 2
          = map (\<lambda>i. [1, 2, 3, 4] ! ((3 + i) mod length [1, 2, 3, 4 :: u8])) [0..<2]"
    using ring_access_flat [THEN conjunct1, rule_format, OF ring_ok_examples(4) fits] ..
  also have "\<dots> = [4, 1]" by code_simp
  finally have 1: "rb_read (sinkbuf wrapped_reader) 3 2 = [4, 1]" .
  note 2 = ring_access_flat [THEN conjunct2, THEN conjunct1, rule_format,
      OF ring_ok_examples(1) ring_ok_examples(2), where n = 2]
  have 3: "fst (snd (drain 2 wrapped_reader)) = [4, 1]"
    by (simp add: drain_wrapped_example)
  note 4 = ring_access_flat [THEN conjunct2, THEN conjunct2, rule_format,
      OF ring_ok_examples(3), where buffer = "[1, 2, 3, 4]" and n = 4]
  have 5: "fst (fill False [1, 2, 3, 4] 4 writer_conn) = 2"
    by (simp add: fill_example)
  from ring_ok_examples fits 1 2 3 4 5 show ?thesis
    by (intro conjI)
qed

text \<open>
  C8 as stated fails: with the head of an empty source ring of 8 bytes at offset 6,
  a fill of 4 bytes copies 2 bytes, not \<open>min(4, free space) = 4\<close>.
\<close>

theorem fill_wrapping_window_counterexample:
  "fst (fill False [1, 2, 3, 4] 4 writer_conn)
     \<noteq> min 4 (min (negAvailable (sourceptr writer_conn)) (negAvailable (rptr writer_conn)))"
  by code_simp

subsection \<open>What polling leaves unchanged\<close>

lemma same_core_refl [simp]: "same_core s s"
  by (simp add: same_core_def)

lemma same_core_trans: "same_core a b \<Longrightarrow> same_core b c \<Longrightarrow> same_core a c"
  by (simp add: same_core_def)

lemma same_core_emit [simp]: "same_core s (emit e s)"
  by (simp add: same_core_def emit_def)

lemma same_core_doCMEvent:
  "doCMEvent RDMA_CM_EVENT_DISCONNECTED got s = (ok, s') \<Longrightarrow> same_core s s'"
  by (auto simp add: doCMEvent_def Let_def same_core_def split: option.splits if_splits)

lemma doCMEvent_depth:
  "doCMEvent expected got s = (ok, s') \<Longrightarrow> depth s' = depth s \<and> state s' = state s"
  by (auto simp add: doCMEvent_def Let_def split: option.splits if_splits)

lemma same_core_checkDisconnected:
  "checkDisconnected t s = (ok, events, s') \<Longrightarrow> same_core s s'"
  by (auto simp add: checkDisconnected_def split: prod.splits bool.splits if_splits
      dest: same_core_doCMEvent)

lemma same_core_rearmCQ: "rearmCQ t s = (ok, s') \<Longrightarrow> same_core s s'"
  by (auto simp add: rearmCQ_def same_core_def emit_def split: if_splits)

lemma same_core_recvRDMAWrite [simp]: "same_core s (recvRDMAWrite pipe_ok imm s)"
  by (simp add: recvRDMAWrite_def Let_def same_core_def incrAvailableBytes_def incrHead_def)

lemma same_core_recvFC [simp]: "same_core s (recvFC fc s)"
  by (simp add: recvFC_def same_core_def)

lemma same_core_recvSetup [simp]: "same_core s (recvSetup st s)"
  by (simp add: recvSetup_def same_core_def)

lemma same_core_recvMessage [simp]: "same_core s (recvMessage m s)"
  by (simp add: recvMessage_def)

lemma same_core_incrTail_source [simp]:
  "same_core s (s\<lparr>sourceptr := incrTail (sourceptr s) n\<rparr>)"
  by (simp add: same_core_def incrTail_def)

lemma same_core_handle_wcs:
  "handle_wcs cs n s = (ok, n', s') \<Longrightarrow> same_core s s'"
proof (induction cs arbitrary: n s)
  case Nil
  then show ?case by simp
next
  case (Cons wc cs)
  show ?case
  proof (cases "IBV_WC_SUCCESS \<noteq> status wc")
    case True
    with Cons show ?thesis by (auto split: if_splits)
  next
    case False
    let ?s1 = "(if IBV_WC_RECV_RDMA_WITH_IMM = wc_opcode wc
                   then recvRDMAWrite (wc_pipe_ok wc) (imm_data wc) s
                   else if IBV_WC_RECV = wc_opcode wc then recvMessage (wc_message wc) s
                   else if IBV_WC_SEND = wc_opcode wc then s
                   else if IBV_WC_RDMA_WRITE = wc_opcode wc
                   then s\<lparr>sourceptr := incrTail (sourceptr s) (ucast (wr_id wc))\<rparr>
                   else s)"
    have a: "same_core s ?s1" by simp
    from Cons.prems False obtain m where "handle_wcs cs m ?s1 = (ok, n', s')"
      by (simp add: Let_def)
    then have "same_core ?s1 s'" by (rule Cons.IH)
    with a show ?thesis by (rule same_core_trans)
  qed
qed

lemma same_core_postReceives: "postReceives ok n s = (r, s') \<Longrightarrow> same_core s s'"
  by (auto simp add: postReceives_def)

lemma same_core_repoll: "repoll again ps s = Some (ok, s') \<Longrightarrow> same_core s s'"
proof (induction again ps s rule: repoll.induct)
  case (1 again s)
  then show ?case by simp
next
  case (2 again ps s)
  then show ?case by simp
next
  case (3 again cs post_ok ps s)
  obtain hok n s1 where h: "handle_wcs cs 0 s = (hok, n, s1)"
    by (cases "handle_wcs cs 0 s") auto
  then have a: "same_core s s1" by (rule same_core_handle_wcs)
  show ?case
  proof (cases hok)
    case False
    with 3 h a show ?thesis by simp
  next
    case True
    obtain pok s2 where p: "(if n > 0 then postReceives post_ok n s1 else (True, s1)) = (pok, s2)"
      by (cases "(if n > 0 then postReceives post_ok n s1 else (True, s1))") auto
    then have b: "same_core s1 s2"
      by (auto split: if_splits dest: same_core_postReceives)
    show ?thesis
    proof (cases "pok \<and> again \<and> cs \<noteq> []")
      case True
      with 3 h p \<open>hok\<close> have "same_core s2 s'" by auto
      with a b show ?thesis by (blast intro: same_core_trans)
    next
      case False
      with 3 h p \<open>hok\<close> have "s' = s2" by (auto split: if_splits bool.splits)
      with a b show ?thesis by (blast intro: same_core_trans)
    qed
  qed
qed

lemma same_core_checkCQ: "checkCQ again ps s = Some (ok, s') \<Longrightarrow> same_core s s'"
  by (auto simp add: checkCQ_def split: if_splits dest: same_core_repoll)

lemma getAvailableBytes_loop_frame:
  "getAvailableBytes_loop reads c a s = Some (n, s') \<Longrightarrow> s' = s\<lparr>pipe := pipe s'\<rparr>"
proof (induction reads arbitrary: c a s)
  case Nil
  then show ?case by simp
next
  case (Cons x reads)
  show ?case
  proof (cases "pipe s")
    case Nil
    with Cons.prems show ?thesis by simp
  next
    case (Cons v vs)
    note p = this
    show ?thesis
    proof (cases "pipe_read x")
      case Read_short
      with Cons.prems p have "s' = s\<lparr>pipe := vs\<rparr>" by simp
      then show ?thesis by simp
    next
      case Read_full
      show ?thesis
      proof (cases "pipe_poll_ok x \<and> vs \<noteq> []")
        case True
        with Cons.prems p Read_full
        have "getAvailableBytes_loop reads v (a + v) (s\<lparr>pipe := vs\<rparr>) = Some (n, s')"
          by (simp add: Let_def)
        from Cons.IH [OF this] show ?thesis by simp
      next
        case False
        with Cons.prems p Read_full have "s' = s\<lparr>pipe := vs\<rparr>"
          by (auto simp add: Let_def split: if_splits)
        then show ?thesis by simp
      qed
    next
      case Read_fail
      show ?thesis
      proof (cases "pipe_poll_ok x")
        case True
        with Cons.prems p Read_fail
        have "getAvailableBytes_loop reads c (a + c) s = Some (n, s')"
          by (simp add: Let_def)
        from Cons.IH [OF this] show ?thesis .
      next
        case False
        with Cons.prems p Read_fail have "s' = s"
          by (simp add: Let_def)
        then show ?thesis by simp
      qed
    qed
  qed
qed

lemma getAvailableBytes_frame:
  "getAvailableBytes reads s = Some (n, s') \<Longrightarrow> s' = s\<lparr>pipe := pipe s'\<rparr>"
  unfolding getAvailableBytes_def by (rule getAvailableBytes_loop_frame)

lemma same_core_getAvailableBytes: "getAvailableBytes reads s = Some (n, s') \<Longrightarrow> same_core s s'"
proof -
  assume "getAvailableBytes reads s = Some (n, s')"
  from getAvailableBytes_frame [OF this] have "same_core s (s\<lparr>pipe := pipe s'\<rparr>) = same_core s s'"
    by simp
  then show ?thesis by (simp add: same_core_def)
qed

lemma established_getAvailableBytes:
  assumes "getAvailableBytes reads s = Some (n, s')"
  shows "established s' = established s \<and> sinkptr s' = sinkptr s"
proof -
  from getAvailableBytes_frame [OF assms]
  have "established s' = established (s\<lparr>pipe := pipe s'\<rparr>)"
    and "sinkptr s' = sinkptr (s\<lparr>pipe := pipe s'\<rparr>)" by simp_all
  then show ?thesis by simp
qed

lemma same_core_incrAvailableBytes [simp]: "same_core s (snd (incrAvailableBytes ok n s))"
  by (simp add: incrAvailableBytes_def same_core_def)

lemma same_core_postMessage [simp]: "same_core s (snd (postMessage ok m s))"
  by (simp add: postMessage_def same_core_def emit_def)

lemma same_core_postFC [simp]: "same_core s (snd (postFC ok n s))"
  by (simp add: postFC_def Let_def same_core_def postMessage_def emit_def)

lemma same_core_drain_0:
  "drain n s = (0, out, s') \<Longrightarrow> same_core s s'"
  by (auto simp add: drain_def Let_def same_core_def incrTail_def)

lemma same_core_readSync_checks:
  assumes "readSync_checks t s = Some (ok, events, s')"
  shows "same_core s s'"
proof -
  obtain ok1 ev s1 where c: "checkDisconnected t s = (ok1, ev, s1)"
    by (cases "checkDisconnected t s") auto
  then have a: "same_core s s1" by (rule same_core_checkDisconnected)
  show ?thesis
  proof (cases ok1)
    case False
    with assms c a show ?thesis by (simp add: readSync_checks_def)
  next
    case True
    obtain ok2 s2 where r: "(if CQ_EVENT \<in> ev then rearmCQ t s1 else (True, s1)) = (ok2, s2)"
      by (cases "(if CQ_EVENT \<in> ev then rearmCQ t s1 else (True, s1))") auto
    then have b: "same_core s1 s2"
      by (auto split: if_splits dest: same_core_rearmCQ)
    show ?thesis
    proof (cases ok2)
      case False
      with assms c r True have "s' = s2" by (simp add: readSync_checks_def)
      with a b show ?thesis by (blast intro: same_core_trans)
    next
      case ok2: True
      with assms c r True have "checkCQ (CQ_EVENT \<in> ev) (polls t) s2 = Some (ok, s')"
        by (auto simp add: readSync_checks_def split: option.splits)
      then have "same_core s2 s'" by (rule same_core_checkCQ)
      with a b show ?thesis by (blast intro: same_core_trans)
    qed
  qed
qed

subsection \<open>Posting a write\<close>


lemma rb_write_nothing [simp]: "rb_write b off (buffer_bytes buffer 0) = b"
  by (cases "rb_pages b") (simp_all add: rb_write_def buffer_bytes_def)









subsection \<open>Reading and writing\<close>

lemma run_loop_rule:
  assumes run: "run_loop body ts k s = Some (r, s')"
    and step_again: "\<And>t k s k1 s1. body t k s = Again k1 s1 \<Longrightarrow> R s s1"
    and step_done: "\<And>t k s r s1. body t k s = Done r s1 \<Longrightarrow> Q s r s1"
    and trans: "\<And>a b c r. R a b \<Longrightarrow> Q b r c \<Longrightarrow> Q a r c"
  shows "Q s r s'"
  using run
proof (induction ts arbitrary: k s)
  case Nil
  then show ?case by simp
next
  case (Cons t ts)
  show ?case
  proof (cases "body t k s")
    case (Again k1 s1)
    with Cons.prems have "run_loop body ts k1 s1 = Some (r, s')" by simp
    then have "Q s1 r s'" by (rule Cons.IH)
    with step_again [OF Again] show ?thesis by (rule trans)
  next
    case (Done r1 s1)
    with Cons.prems have "r1 = r" "s1 = s'" by simp_all
    with step_done [OF Done] show ?thesis by simp
  next
    case Hang
    with Cons.prems show ?thesis by simp
  qed
qed


lemma map_option_fst_Some: "map_option fst x = Some r \<Longrightarrow> \<exists>s. x = Some (r, s)"
  by (cases x) auto

lemma readSync_err_Again [simp]: "readSync_err s \<noteq> Again k s'"
  by (simp add: readSync_err_def)

lemma readSync_err_Done [simp]:
  "readSync_err s = Done r s' \<longleftrightarrow> r = (- 1, []) \<and> s' = close s"
  by (auto simp add: readSync_err_def)

lemma readSync_take_Again:
  assumes "readSync_take g bytes start t be k s = Again k1 s1"
  shows "same_core s s1"
proof -
  from assms obtain av sa
    where a: "(if be then getAvailableBytes (pipe_reads t) s else Some (snd k, s)) = Some (av, sa)"
    by (auto simp add: readSync_take_def split: option.splits)
  then have sa: "same_core s sa"
    by (auto split: if_splits dest: same_core_getAvailableBytes)
  obtain b out sb where d: "drain (ucast bytes) sa = (b, out, sb)"
    by (cases "drain (ucast bytes) sa") auto
  from assms a d have "b = 0" "s1 = sb"
    by (auto simp add: readSync_take_def Let_def split: if_splits)
  with d have "same_core sa s1" by (auto dest: same_core_drain_0)
  with sa show ?thesis by (rule same_core_trans)
qed

lemma readSync_take_Done:
  assumes "readSync_take g bytes start t be k s = Done (r, out) s1"
  shows "(r = - 1 \<and> out = [] \<and> (\<exists>s0. same_core s s0 \<and> s1 = close s0))
       \<or> (0 < r \<and> r \<le> uint bytes \<and> r \<le> uint (available (sinkptr s)) \<and> int (length out) = r
          \<and> state s1 = state s
          \<and> rp_tail (sinkptr s1) = rp_tail (sinkptr s) + word_of_int r
          \<and> out = rb_read (sinkbuf s) (unat (tail (sinkptr s))) (nat r)
          \<and> sinkbuf s1 = sinkbuf s)"
proof -
  from assms obtain av sa
    where a: "(if be then getAvailableBytes (pipe_reads t) s else Some (snd k, s)) = Some (av, sa)"
    by (auto simp add: readSync_take_def split: option.splits)
  then have sa: "same_core s sa"
    by (auto split: if_splits dest: same_core_getAvailableBytes)
  from a have sp: "sinkptr sa = sinkptr s"
    by (auto split: if_splits dest: established_getAvailableBytes)
  obtain b out' sb where d: "drain (ucast bytes) sa = (b, out', sb)"
    by (cases "drain (ucast bytes) sa") auto
  note dp = drain_props [OF d]
  show ?thesis
  proof (cases "be \<and> 0 = av")
    case True
    with assms a have "r = - 1" "out = []" "s1 = close sa"
      by (auto simp add: readSync_take_def)
    with sa show ?thesis by auto
  next
    case False
    note nb = this
    show ?thesis
    proof (cases "b = 0")
      case True
      with assms a d nb have "r = - 1" "out = []" "s1 = close sb"
        by (auto simp add: readSync_take_def split: if_splits)
      moreover from d True have "same_core sa sb" by (auto dest: same_core_drain_0)
      ultimately show ?thesis using sa by (blast intro: same_core_trans)
    next
      case False
      let ?s3 = "(if av > ucast b
                  then snd (incrAvailableBytes (pipe_write_ok t) (av - ucast b) sb) else sb)"
      let ?s4 = "(if established ?s3 \<and> needFC ?s3
                  then snd (postFC (post_send_ok t) b ?s3) else ?s3)"
      from assms a d nb False have r: "r = uint b" "out = out'" "s1 = ?s4"
        by (auto simp add: readSync_take_def Let_def)
      have c3: "same_core sb ?s3" by simp
      have c4: "same_core ?s3 ?s4" by simp
      from c3 c4 have c: "same_core sb s1" unfolding r by (rule same_core_trans)
      have "uint b \<noteq> 0" using False by (simp add: uint_0_iff)
      moreover have "0 \<le> uint b" by simp
      ultimately have "0 < uint b" by linarith
      then have pos: "0 < r" by (simp only: r)
      have "b \<le> ucast bytes" "b \<le> available (sinkptr s)"
        by (simp_all add: dp sp)
      then have le: "r \<le> uint (ucast bytes :: u32)" "r \<le> uint (available (sinkptr s))"
        by (simp_all add: r word_le_def)
      have "uint (ucast bytes :: u32) \<le> uint bytes"
        by (simp add: unsigned_ucast_eq take_bit_eq_mod zmod_le_nonneg_dividend)
      with le have le': "r \<le> uint bytes" by simp
      have len: "int (length out) = r"
        by (simp add: r dp)
      have st: "state s1 = state s"
        using c sa by (simp add: same_core_def dp)
      have "rp_tail (sinkptr s1) = rp_tail (sinkptr sb)"
        using c by (simp add: same_core_def)
      also have "\<dots> = rp_tail (sinkptr s) + b"
        by (simp add: dp sp incrTail_def)
      finally have "rp_tail (sinkptr s1) = rp_tail (sinkptr s) + word_of_int r"
        by (simp add: r)
      moreover have "out' = rb_read (sinkbuf sa) (unat (tail (sinkptr sa))) (unat b)"
        using d by (auto simp add: drain_def Let_def)
      then have "out = rb_read (sinkbuf s) (unat (tail (sinkptr s))) (nat r)"
        using sa by (simp add: r sp same_core_def)
      moreover have "sinkbuf s1 = sinkbuf s"
        using c sa by (simp add: same_core_def dp)
      ultimately show ?thesis using pos le' le len st by simp
    qed
  qed
qed

lemma readSync_decide_Again:
  "readSync_decide g bytes block start t events k s = Again k1 s1 \<Longrightarrow> same_core s s1"
  by (auto simp add: readSync_decide_def split: if_splits dest: readSync_take_Again)

lemma readSync_decide_Done:
  assumes "readSync_decide g bytes block start t events k s = Done (r, out) s1"
  shows "(r = - 1 \<and> out = [] \<and> (\<exists>s0. same_core s s0 \<and> s1 = close s0))
       \<or> (r = 0 \<and> out = [] \<and> s1 = s \<and> established s)
       \<or> (0 < r \<and> r \<le> uint bytes \<and> r \<le> uint (available (sinkptr s)) \<and> int (length out) = r
          \<and> state s1 = state s
          \<and> rp_tail (sinkptr s1) = rp_tail (sinkptr s) + word_of_int r
          \<and> out = rb_read (sinkbuf s) (unat (tail (sinkptr s))) (nat r)
          \<and> sinkbuf s1 = sinkbuf s)"
proof (cases "established s \<and> needFC s \<and> 0 = fcredits s")
  case True
  with assms have "r = - 1 \<and> out = [] \<and> s1 = close s"
    by (auto simp add: readSync_decide_def split: if_splits)
  then show ?thesis using same_core_refl [of s] by blast
next
  case False
  note a = this
  show ?thesis
  proof (cases "established s \<and> BUF_EVENT \<notin> events")
    case True
    with assms a have "r = 0 \<and> out = [] \<and> s1 = s \<and> established s"
      by (auto simp add: readSync_decide_def split: if_splits)
    then show ?thesis by simp
  next
    case False
    with assms a
    have "readSync_take g bytes start t (BUF_EVENT \<in> events) k s = Done (r, out) s1"
      by (auto simp add: readSync_decide_def split: if_splits)
    from readSync_take_Done [OF this] show ?thesis by blast
  qed
qed

lemma readSync_pass_Again:
  assumes "readSync_pass g bytes block start t k s = Again k1 s1"
  shows "same_core s s1"
proof -
  from assms obtain events s3 where c: "readSync_checks t s = Some (True, events, s3)"
    and d: "readSync_decide g bytes block start t events k s3 = Again k1 s1"
    by (auto simp add: readSync_pass_def split: option.splits bool.splits)
  from same_core_readSync_checks [OF c] readSync_decide_Again [OF d]
  show ?thesis by (rule same_core_trans)
qed

lemma readSync_pass_Done:
  assumes "readSync_pass g bytes block start t k s = Done (r, out) s1"
  shows "(r = - 1 \<and> out = [] \<and> (\<exists>s0. same_core s s0 \<and> s1 = close s0))
       \<or> (r = 0 \<and> out = [] \<and> same_core s s1 \<and> established s1)
       \<or> (0 < r \<and> r \<le> uint bytes \<and> int (length out) = r
          \<and> state s1 = state s
          \<and> rp_tail (sinkptr s1) = rp_tail (sinkptr s) + word_of_int r
          \<and> out = rb_read (sinkbuf s) (unat (tail (sinkptr s))) (nat r)
          \<and> sinkbuf s1 = sinkbuf s)"
proof -
  from assms obtain ok events s3 where c: "readSync_checks t s = Some (ok, events, s3)"
    by (auto simp add: readSync_pass_def split: option.splits)
  note sc = same_core_readSync_checks [OF c]
  show ?thesis
  proof (cases ok)
    case False
    with assms c have "r = - 1 \<and> out = [] \<and> s1 = close s3"
      by (simp add: readSync_pass_def)
    with sc show ?thesis by auto
  next
    case True
    with assms c have d: "readSync_decide g bytes block start t events k s3 = Done (r, out) s1"
      by (simp add: readSync_pass_def)
    from readSync_decide_Done [OF d] sc show ?thesis
      by (auto simp add: same_core_def tail_def ptr_def)
  qed
qed

lemma uint_pos: "(b::'a::len word) \<noteq> 0 \<Longrightarrow> 0 < uint b"
proof -
  assume "b \<noteq> 0"
  then have "uint b \<noteq> 0" by (simp add: uint_0_iff)
  moreover have "0 \<le> uint b" by simp
  ultimately show ?thesis by linarith
qed

lemma neg1_le_uint [simp]: "- 1 \<le> uint (w::'a::len word)"
  by (rule order_trans [of _ 0]) simp_all













lemma readSync_cases:
  assumes "readSync g bytes block start ticks s = Some ((r, out), s1)"
  shows "(r = - 1 \<and> out = [] \<and> (\<exists>s0. same_core s s0 \<and> s1 = close s0))
       \<or> (r = 0 \<and> out = [] \<and> same_core s s1)
       \<or> (0 < r \<and> r \<le> uint bytes \<and> int (length out) = r
          \<and> state s1 = state s
          \<and> rp_tail (sinkptr s1) = rp_tail (sinkptr s) + word_of_int r
          \<and> out = rb_read (sinkbuf s) (unat (tail (sinkptr s))) (nat r)
          \<and> sinkbuf s1 = sinkbuf s)"
proof (cases "STATE_CONNECTED \<noteq> state s")
  case True
  with assms have "r = - 1" "out = []" "s1 = close s" by (simp_all add: readSync_def)
  then show ?thesis using same_core_refl [of s] by blast
next
  case False
  let ?Q = "\<lambda>s (ro :: int \<times> u8 list) s1.
       (fst ro = - 1 \<and> snd ro = [] \<and> (\<exists>s0. same_core s s0 \<and> s1 = close s0))
       \<or> (fst ro = 0 \<and> snd ro = [] \<and> same_core s s1)
       \<or> (0 < fst ro \<and> fst ro \<le> uint bytes \<and> int (length (snd ro)) = fst ro
          \<and> state s1 = state s
          \<and> rp_tail (sinkptr s1) = rp_tail (sinkptr s) + word_of_int (fst ro)
          \<and> snd ro = rb_read (sinkbuf s) (unat (tail (sinkptr s))) (nat (fst ro))
          \<and> sinkbuf s1 = sinkbuf s)"
  from False assms
  have run: "run_loop (readSync_pass g bytes block start) ticks (False, 0) s = Some ((r, out), s1)"
    by (simp add: readSync_def)
  have "?Q s (r, out) s1"
  proof (rule run_loop_rule [OF run, where R = same_core and Q = ?Q])
    fix t k s k1 s1
    assume "readSync_pass g bytes block start t k s = Again k1 s1"
    then show "same_core s s1" by (rule readSync_pass_Again)
  next
    fix t k s ro s1
    assume d: "readSync_pass g bytes block start t k s = Done ro s1"
    obtain r out where ro: "ro = (r, out)" by (cases ro)
    from readSync_pass_Done [OF d [unfolded ro]]
    show "?Q s ro s1" unfolding ro fst_conv snd_conv by blast
  next
    fix a b c ro
    assume ab: "same_core a b" and q: "?Q b ro c"
    have t: "tail (sinkptr b) = tail (sinkptr a)" "sinkbuf b = sinkbuf a"
      "rp_tail (sinkptr b) = rp_tail (sinkptr a)" "state b = state a"
      using ab by (simp_all add: same_core_def tail_def ptr_def)
    from q consider
      (err) "fst ro = - 1 \<and> snd ro = [] \<and> (\<exists>s0. same_core b s0 \<and> c = close s0)"
      | (zero) "fst ro = 0 \<and> snd ro = [] \<and> same_core b c"
      | (pos) "0 < fst ro \<and> fst ro \<le> uint bytes \<and> int (length (snd ro)) = fst ro
          \<and> state c = state b
          \<and> rp_tail (sinkptr c) = rp_tail (sinkptr b) + word_of_int (fst ro)
          \<and> snd ro = rb_read (sinkbuf b) (unat (tail (sinkptr b))) (nat (fst ro))
          \<and> sinkbuf c = sinkbuf b"
      by blast
    then show "?Q a ro c"
    proof cases
      case err
      with ab show ?thesis by (blast intro: same_core_trans)
    next
      case zero
      with ab show ?thesis by (blast intro: same_core_trans)
    next
      case pos
      then show ?thesis unfolding t by blast
    qed
  qed
  then show ?thesis by simp
qed







lemma write_failed_example:
  "map_option fst (write_conn example_globals [1, 2, 3, 4] 4 0 [failing_post_tick] writer_conn)
     = Some (- 1)"
  by code_simp










lemma drain_empty:
  assumes "isEmpty (sinkptr s)"
  shows "drain n s = (0, [], s)"
proof -
  have "available (sinkptr s) = 0" using assms by (simp add: isEmpty_def)
  then show ?thesis
    by (simp add: drain_def Let_def rb_read_def incrTail_def)
qed

lemma getAvailableBytes_loop_full:
  "pipe s = v # vs \<Longrightarrow> reads_full reads (length (v # vs)) \<Longrightarrow>
     getAvailableBytes_loop reads c a s = Some (a + sum_list (v # vs), s\<lparr>pipe := []\<rparr>)"
proof (induction reads arbitrary: s v vs c a)
  case Nil
  then show ?case by (simp add: reads_full_def)
next
  case (Cons x reads)
  from Cons.prems(2) have x: "pipe_read x = Read_full" "pipe_poll_ok x"
    and rest: "reads_full reads (length vs)"
    by (simp_all add: reads_full_def)
  show ?case
  proof (cases vs)
    case Nil
    with Cons.prems(1) x show ?thesis by (simp add: Let_def)
  next
    case (Cons v' vs')
    have p: "pipe (s\<lparr>pipe := vs\<rparr>) = v' # vs'" by (simp add: Cons)
    from rest have r: "reads_full reads (length (v' # vs'))" by (simp add: Cons)
    from Cons.IH [OF p r, of v "a + v"]
    have "getAvailableBytes_loop reads v (a + v) (s\<lparr>pipe := vs\<rparr>)
            = Some (a + v + sum_list (v' # vs'), s\<lparr>pipe := []\<rparr>)"
      by simp
    with Cons.prems(1) x Cons show ?thesis by (simp add: Let_def add.assoc)
  qed
qed

lemma getAvailableBytes_full:
  assumes "pipe s \<noteq> []" "reads_full reads (length (pipe s))"
  shows "getAvailableBytes reads s = Some (sum_list (pipe s), s\<lparr>pipe := []\<rparr>)"
proof -
  from assms(1) obtain v vs where p: "pipe s = v # vs" by (cases "pipe s") auto
  from getAvailableBytes_loop_full [OF p, of reads 0 0] assms(2) p
  show ?thesis by (simp add: getAvailableBytes_def)
qed

lemma readSync_take_eof:
  assumes "\<not> established s" "isEmpty (sinkptr s)"
    and "be \<longrightarrow> getAvailableBytes (pipe_reads t) s \<noteq> None"
  shows "\<exists>s0. readSync_take g bytes start t be k s = Done (- 1, []) (close s0)"
proof -
  from assms(3) obtain av sa
    where a: "(if be then getAvailableBytes (pipe_reads t) s else Some (snd k, s)) = Some (av, sa)"
    by (cases be) auto
  then have e: "\<not> established sa" "isEmpty (sinkptr sa)"
    using assms(1,2) by (auto split: if_splits dest: established_getAvailableBytes)
  show ?thesis
  proof (cases "be \<and> 0 = av")
    case True
    with a show ?thesis by (auto simp add: readSync_take_def readSync_err_def)
  next
    case False
    with a e drain_empty [OF e(2)] show ?thesis
      by (auto simp add: readSync_take_def readSync_err_def)
  qed
qed

lemma readSync_decide_eof:
  assumes "\<not> established s" "isEmpty (sinkptr s)"
    and "BUF_EVENT \<in> events \<longrightarrow> getAvailableBytes (pipe_reads t) s \<noteq> None"
  shows "\<exists>s0. readSync_decide g bytes block start t events k s = Done (- 1, []) (close s0)"
  using assms(1) readSync_take_eof [OF assms] by (simp add: readSync_decide_def)

lemma readSync_decide_hang:
  assumes "\<not> established s" "BUF_EVENT \<in> events" "getAvailableBytes (pipe_reads t) s = None"
  shows "readSync_decide g bytes block start t events k s = Hang"
  using assms by (simp add: readSync_decide_def readSync_take_def)

text \<open>
  C7. If, in any pass of \<^verbatim>\<open>readSync\<close>, the three checks at the head of the pass succeed
  and leave the connection not established and the sink ring empty (so that no byte can
  be drained), and the loop of \<^verbatim>\<open>_getAvailableBytes\<close> returns when the pass runs it (it does
  when the pipe had signalled), then \<^verbatim>\<open>readSync\<close> returns in that pass, whatever the
  timeout and the blocking mode, and what it returns is \<open>-1\<close>, with the connection
  closed: not 0, and no further pass. This holds for a pass with any values of the locals
  that survive \<^verbatim>\<open>goto retry\<close>, and so for the first pass of a call on a connected
  connection. The pass does not return only when that loop does not; and the loop
  returns, with the sum of what the pipe held, when each value of the pipe is read whole
  and each poll succeeds.
\<close>

theorem readSync_end_of_stream:
  assumes "readSync_checks t s = Some (True, events, s3)"
    and "\<not> established s3"
    and "isEmpty (sinkptr s3)"
  shows "((BUF_EVENT \<in> events \<longrightarrow> getAvailableBytes (pipe_reads t) s3 \<noteq> None) \<longrightarrow>
            (\<exists>s'. run_loop (readSync_pass g bytes block start) (t # ts) k s = Some ((- 1, []), s')
                  \<and> state s' = STATE_CLOSED)
          \<and> (state s = STATE_CONNECTED \<longrightarrow>
               (\<exists>s'. readSync g bytes block start (t # ts) s = Some ((- 1, []), s')
                     \<and> state s' = STATE_CLOSED)))
       \<and> (BUF_EVENT \<in> events \<and> getAvailableBytes (pipe_reads t) s3 = None \<longrightarrow>
            readSync_pass g bytes block start t k s = Hang)
       \<and> (pipe s3 \<noteq> [] \<longrightarrow> reads_full (pipe_reads t) (length (pipe s3)) \<longrightarrow>
            getAvailableBytes (pipe_reads t) s3 = Some (sum_list (pipe s3), s3\<lparr>pipe := []\<rparr>))"
proof (intro conjI impI)
  assume r: "BUF_EVENT \<in> events \<longrightarrow> getAvailableBytes (pipe_reads t) s3 \<noteq> None"
  have *: "\<exists>s'. run_loop (readSync_pass g bytes block start) (t # ts) k s = Some ((- 1, []), s')
              \<and> state s' = STATE_CLOSED" for k
  proof -
    from readSync_decide_eof [OF assms(2,3) r] obtain s0
      where "readSync_decide g bytes block start t events k s3 = Done (- 1, []) (close s0)"
      by blast
    with assms(1) have "readSync_pass g bytes block start t k s = Done (- 1, []) (close s0)"
      by (simp add: readSync_pass_def)
    then show ?thesis by simp
  qed
  from * [of k]
  show "\<exists>s'. run_loop (readSync_pass g bytes block start) (t # ts) k s = Some ((- 1, []), s')
              \<and> state s' = STATE_CLOSED" .
  assume "state s = STATE_CONNECTED"
  with * [of "(False, 0)"]
  show "\<exists>s'. readSync g bytes block start (t # ts) s = Some ((- 1, []), s')
              \<and> state s' = STATE_CLOSED"
    by (simp add: readSync_def)
next
  assume "BUF_EVENT \<in> events \<and> getAvailableBytes (pipe_reads t) s3 = None"
  with readSync_decide_hang [OF assms(2), of events t] assms(1)
  show "readSync_pass g bytes block start t k s = Hang"
    by (simp add: readSync_pass_def)
next
  assume "pipe s3 \<noteq> []" "reads_full (pipe_reads t) (length (pipe s3))"
  then show "getAvailableBytes (pipe_reads t) s3 = Some (sum_list (pipe s3), s3\<lparr>pipe := []\<rparr>)"
    by (rule getAvailableBytes_full)
qed

lemma ack_alt:
  "ack_completions s =
     s\<lparr>trace := trace s @ (if completions s > 0 then [Ibv_ack_cq_events (completions s)] else []),
       completions := 0\<rparr>"
proof (cases "completions s > 0")
  case True
  then show ?thesis by (simp add: ack_completions_def emit_def)
next
  case False
  then have "completions s = 0" by (simp add: word_gt_0)
  then have "s = s\<lparr>trace := trace s @ [], completions := 0\<rparr>" by simp
  with False show ?thesis by (simp add: ack_completions_def)
qed

lemma cleanup_effects:
  "trace (cleanup s) = trace s
     @ (if rb_held (sourcebuf s) then [Release SourceBuf] else [])
     @ (if rb_held (sinkbuf s) then [Release SinkBuf] else [])
     @ (if msgbuf s \<noteq> 0 then [Release MsgBuf] else [])
     @ (if completions s > 0 then [Ibv_ack_cq_events (completions s)] else [])
     @ (if wcs s then [Release Wcs] else [])
     @ (if cm_id s then [Release CmId] else [])
     @ (if cq s then [Release Cq] else [])
     @ (if cc s then [Release Cc] else [])
     @ (if pd s then [Release Pd] else [])
     @ (if cm s then [Release Cm] else [])
     @ (if rai s then [Release Rai] else [])
     @ (if notifier s then [Release Notifier] else [])"
  by (simp add: cleanup_def cleanup_steps_def free_def release_alt ack_alt)

lemma pipe_fd_cleanup [simp]: "pipe_fd (cleanup s) = pipe_fd s"
  by (simp add: cleanup_def cleanup_steps_def free_def release_alt ack_alt)

lemma closing_fields:
  "sourcebuf (setState a (disconnect (setState b s))) = sourcebuf s"
  "sinkbuf (setState a (disconnect (setState b s))) = sinkbuf s"
  "msgbuf (setState a (disconnect (setState b s))) = msgbuf s"
  "completions (setState a (disconnect (setState b s))) = completions s"
  "wcs (setState a (disconnect (setState b s))) = wcs s"
  "cm_id (setState a (disconnect (setState b s))) = cm_id s"
  "cq (setState a (disconnect (setState b s))) = cq s"
  "cc (setState a (disconnect (setState b s))) = cc s"
  "pd (setState a (disconnect (setState b s))) = pd s"
  "cm (setState a (disconnect (setState b s))) = cm s"
  "rai (setState a (disconnect (setState b s))) = rai s"
  "notifier (setState a (disconnect (setState b s))) = notifier s"
  "pipe_fd (setState a (disconnect (setState b s))) = pipe_fd s"
  by (simp_all add: setState_def disconnect_def emit_def)

lemma closing_trace:
  "state s \<noteq> STATE_CLOSED \<Longrightarrow>
     trace (setState STATE_CLOSED (disconnect (setState STATE_CLOSING s)))
       = trace s @ (if state s \<noteq> STATE_CLOSING then [FireStateChanged STATE_CLOSING] else [])
           @ (if established s then [Rdma_disconnect] else [])
           @ [FireStateChanged STATE_CLOSED]"
  by (simp add: setState_def disconnect_def emit_def)

lemma close_effects:
  assumes "state s \<noteq> STATE_CLOSED"
  shows "trace (close s) = trace s @ teardown s" and "pipe_fd (close s) = pipe_fd s"
  using assms
  by (simp_all add: close_def close_impl_def cleanup_effects closing_fields closing_trace
      teardown_def)

lemma pipe_fd_close [simp]: "pipe_fd (close s) = pipe_fd s"
proof (cases "state s = STATE_CLOSED")
  case True
  then show ?thesis by (simp add: close_def close_impl_closed)
next
  case False
  then show ?thesis by (rule close_effects(2))
qed

text \<open>
  C10, as the code has it. Whenever \<^verbatim>\<open>readSync\<close> returns a negative value, the value is
  \<open>-1\<close>, nothing was copied and the connection is CLOSED. A connection that was CLOSED
  when \<^verbatim>\<open>readSync\<close> was called is returned as it was. Any other has been closed by
  \<^verbatim>\<open>close()\<close>: it has fired the two state changes, disconnected when it was established,
  and released, in the order of \<^verbatim>\<open>_cleanup\<close>, each resource it held, so that nothing
  \<^verbatim>\<open>_cleanup\<close> releases is held any more. The descriptors of the pipe are not among these:
  they are as they were before the call, open when they were open.
\<close>

theorem readSync_negative_closed:
  "readSync g bytes block start ticks s = Some ((r, out), s') \<longrightarrow> r < 0 \<longrightarrow>
     r = - 1 \<and> out = [] \<and> state s' = STATE_CLOSED \<and> pipe_fd s' = pipe_fd s
     \<and> (state s = STATE_CLOSED \<longrightarrow> s' = s)
     \<and> (state s \<noteq> STATE_CLOSED \<longrightarrow>
          released s'
          \<and> (\<exists>s0. s' = close s0 \<and> state s0 = state s \<and> trace s' = trace s0 @ teardown s0))"
proof (intro impI)
  assume a: "readSync g bytes block start ticks s = Some ((r, out), s')" and neg: "r < 0"
  from readSync_cases [OF a] neg obtain s0
    where r: "r = - 1" "out = []" and sc: "same_core s s0" and s': "s' = close s0"
    by auto
  from sc have st: "state s0 = state s" and pf: "pipe_fd s0 = pipe_fd s"
    by (simp_all add: same_core_def)
  have closed: "state s = STATE_CLOSED \<longrightarrow> s' = s"
  proof
    assume c: "state s = STATE_CLOSED"
    with a show "s' = s" by (simp add: readSync_def close_def close_impl_closed)
  qed
  have "state s \<noteq> STATE_CLOSED \<longrightarrow>
          released s'
          \<and> (\<exists>s0. s' = close s0 \<and> state s0 = state s \<and> trace s' = trace s0 @ teardown s0)"
  proof
    assume "state s \<noteq> STATE_CLOSED"
    with st have n: "state s0 \<noteq> STATE_CLOSED" by simp
    from released_close [OF n] close_effects(1) [OF n] st
    show "released s'
          \<and> (\<exists>s0. s' = close s0 \<and> state s0 = state s \<and> trace s' = trace s0 @ teardown s0)"
      unfolding s' by blast
  qed
  with r closed pf
  show "r = - 1 \<and> out = [] \<and> state s' = STATE_CLOSED \<and> pipe_fd s' = pipe_fd s
     \<and> (state s = STATE_CLOSED \<longrightarrow> s' = s)
     \<and> (state s \<noteq> STATE_CLOSED \<longrightarrow>
          released s'
          \<and> (\<exists>s0. s' = close s0 \<and> state s0 = state s \<and> trace s' = trace s0 @ teardown s0))"
    by (simp add: s')
qed

lemmas check_defs = readSync_checks_def checkDisconnected_def checkEvents_def doCMEvent_def
  checkCQ_def disconnect_tick_def quiet_tick_def eof_conn_def idle_conn_def new_conn_def Let_def

lemma eof_checks:
  "readSync_checks disconnect_tick eof_conn
     = Some (True, {CM_EVENT}, eof_conn\<lparr>established := False\<rparr>)"
  by (simp add: check_defs)

lemma eof_signal_checks:
  "readSync_checks disconnect_tick (eof_conn\<lparr>pipe := [0]\<rparr>)
     = Some (True, {BUF_EVENT, CM_EVENT}, eof_conn\<lparr>pipe := [0], established := False\<rparr>)"
  by (auto simp add: check_defs)

lemma eof_empty:
  "isEmpty (sinkptr (eof_conn\<lparr>established := False\<rparr>))"
  "isEmpty (sinkptr (eof_conn\<lparr>pipe := [0], established := False\<rparr>))"
  by (simp_all add: eof_conn_def idle_conn_def new_conn_def isEmpty_def available_def
      available2_def rp_clear_def)

lemma eof_state: "state eof_conn = STATE_CONNECTED" "pipe_fd eof_conn"
  by (simp_all add: eof_conn_def idle_conn_def)

lemma eof_signal_read:
  "getAvailableBytes (pipe_reads disconnect_tick) (eof_conn\<lparr>pipe := [0], established := False\<rparr>)
     = Some (0, eof_conn\<lparr>pipe := [], established := False\<rparr>)"
  by (simp add: getAvailableBytes_def disconnect_tick_def quiet_tick_def Let_def)

lemma readSync_eof_trace:
  "map_option (trace \<circ> snd) (readSync example_globals 10 True 0 [disconnect_tick] eof_conn)
     = Some [FireStateChanged STATE_CLOSING, FireStateChanged STATE_CLOSED,
             Release SourceBuf, Release SinkBuf, Release MsgBuf, Release Wcs, Release CmId,
             Release Cq, Release Cc, Release Pd, Release Cm, Release Rai, Release Notifier]"
  by code_simp

lemma readSync_eof_example:
  "map_option fst (readSync example_globals 10 True 0 [disconnect_tick] eof_conn) = Some (- 1, [])"
  by code_simp

theorem readSync_end_of_stream_witness:
  "(\<exists>s'. readSync example_globals 10 True 0 [disconnect_tick] eof_conn = Some ((- 1, []), s')
        \<and> state s' = STATE_CLOSED)
   \<and> getAvailableBytes (pipe_reads disconnect_tick) (eof_conn\<lparr>pipe := [0], established := False\<rparr>)
       = Some (0, eof_conn\<lparr>pipe := [], established := False\<rparr>)
   \<and> (\<exists>s'. readSync example_globals 10 True 0 [disconnect_tick] (eof_conn\<lparr>pipe := [0]\<rparr>)
              = Some ((- 1, []), s')
        \<and> state s' = STATE_CLOSED)
   \<and> readSync_pass example_globals 10 True 0 (disconnect_tick\<lparr>pipe_reads := []\<rparr>) (False, 0)
        (eof_conn\<lparr>pipe := [0]\<rparr>) = Hang"
proof -
  have ne: "\<not> established (eof_conn\<lparr>established := False\<rparr>)"
    "\<not> established (eof_conn\<lparr>pipe := [0], established := False\<rparr>)" by simp_all
  have st: "state eof_conn = STATE_CONNECTED" "state (eof_conn\<lparr>pipe := [0]\<rparr>) = STATE_CONNECTED"
    by (simp_all add: eof_state)
  have nb: "BUF_EVENT \<in> {CM_EVENT} \<longrightarrow>
      getAvailableBytes (pipe_reads disconnect_tick) (eof_conn\<lparr>established := False\<rparr>) \<noteq> None"
    by simp
  from readSync_end_of_stream [OF eof_checks ne(1) eof_empty(1), of example_globals 10 True 0 "[]",
      THEN conjunct1, THEN mp, OF nb] st(1)
  have a: "\<exists>s'. readSync example_globals 10 True 0 [disconnect_tick] eof_conn = Some ((- 1, []), s')
        \<and> state s' = STATE_CLOSED"
    by simp
  note t = readSync_end_of_stream [OF eof_signal_checks ne(2) eof_empty(2),
      of example_globals 10 True 0 "[]" "(False, 0)"]
  have p: "pipe (eof_conn\<lparr>pipe := [0], established := False\<rparr>) \<noteq> []" by simp
  have f: "reads_full (pipe_reads disconnect_tick)
             (length (pipe (eof_conn\<lparr>pipe := [0], established := False\<rparr>)))"
    by (simp add: reads_full_def disconnect_tick_def quiet_tick_def)
  from t [THEN conjunct2, THEN conjunct2, rule_format, OF p f]
  have b: "getAvailableBytes (pipe_reads disconnect_tick)
             (eof_conn\<lparr>pipe := [0], established := False\<rparr>)
       = Some (0, eof_conn\<lparr>pipe := [], established := False\<rparr>)"
    by simp
  then have "BUF_EVENT \<in> {BUF_EVENT, CM_EVENT} \<longrightarrow>
      getAvailableBytes (pipe_reads disconnect_tick)
        (eof_conn\<lparr>pipe := [0], established := False\<rparr>) \<noteq> None"
    by simp
  from t [THEN conjunct1, THEN mp, OF this] st(2)
  have c: "\<exists>s'. readSync example_globals 10 True 0 [disconnect_tick] (eof_conn\<lparr>pipe := [0]\<rparr>)
              = Some ((- 1, []), s')
        \<and> state s' = STATE_CLOSED"
    by simp
  have checks: "readSync_checks (disconnect_tick\<lparr>pipe_reads := []\<rparr>) (eof_conn\<lparr>pipe := [0]\<rparr>)
     = Some (True, {BUF_EVENT, CM_EVENT}, eof_conn\<lparr>pipe := [0], established := False\<rparr>)"
    by (auto simp add: check_defs)
  have none: "BUF_EVENT \<in> {BUF_EVENT, CM_EVENT}
      \<and> getAvailableBytes (pipe_reads (disconnect_tick\<lparr>pipe_reads := []\<rparr>))
           (eof_conn\<lparr>pipe := [0], established := False\<rparr>) = None"
    by (simp add: getAvailableBytes_def)
  from readSync_end_of_stream [OF checks ne(2) eof_empty(2),
      of example_globals 10 True 0 "[]" "(False, 0)", THEN conjunct2, THEN conjunct1, rule_format,
      OF none]
  have d: "readSync_pass example_globals 10 True 0 (disconnect_tick\<lparr>pipe_reads := []\<rparr>) (False, 0)
        (eof_conn\<lparr>pipe := [0]\<rparr>) = Hang" .
  from a b c d show ?thesis by (intro conjI)
qed

theorem readSync_negative_closed_witness:
  "(\<exists>s'. readSync example_globals 10 True 0 [disconnect_tick] eof_conn = Some ((- 1, []), s')
        \<and> state s' = STATE_CLOSED \<and> released s' \<and> pipe_fd s'
        \<and> trace s' = [FireStateChanged STATE_CLOSING, FireStateChanged STATE_CLOSED,
             Release SourceBuf, Release SinkBuf, Release MsgBuf, Release Wcs, Release CmId,
             Release Cq, Release Cc, Release Pd, Release Cm, Release Rai, Release Notifier])
   \<and> readSync example_globals 10 True 0 [] new_conn = Some ((- 1, []), new_conn)
   \<and> state new_conn = STATE_CLOSED"
proof -
  from map_option_fst_Some [OF readSync_eof_example] obtain s1
    where 1: "readSync example_globals 10 True 0 [disconnect_tick] eof_conn = Some ((- 1, []), s1)"
    by blast
  have neg: "(- 1 :: int) < 0" by simp
  have n: "state eof_conn \<noteq> STATE_CLOSED" by (simp add: eof_state)
  from readSync_negative_closed [rule_format, OF 1 neg] n eof_state(2)
  have a: "state s1 = STATE_CLOSED \<and> released s1 \<and> pipe_fd s1" by simp
  from readSync_eof_trace 1
  have tr: "trace s1 = [FireStateChanged STATE_CLOSING, FireStateChanged STATE_CLOSED,
             Release SourceBuf, Release SinkBuf, Release MsgBuf, Release Wcs, Release CmId,
             Release Cq, Release Cc, Release Pd, Release Cm, Release Rai, Release Notifier]"
    by simp
  have c: "state new_conn = STATE_CLOSED" by (simp add: new_conn_def)
  obtain s2 where 2: "readSync example_globals 10 True 0 [] new_conn = Some ((- 1, []), s2)"
    by (simp add: readSync_def c)
  from readSync_negative_closed [rule_format, OF 2 neg] c have "s2 = new_conn" by simp
  with 1 2 a tr c show ?thesis by blast
qed

subsection \<open>The handshake\<close>

text \<open>Evaluating the handshake on the example peers.\<close>

lemmas hs_defs = connect_def connect_steps_def finishAccept_def accept_steps_reject_def
  accept_steps_def lookupAddress_def createNotifier_def createEventChannel_def createId_def
  resolveAddress_def resolveRoute_def initProtocol_def initVerbs_def createQP_def
  createBytesAvailableFD_def initBuffers_def msgbuf_resize_def rb_resize_def rb_clear_def
  postReceives_def connect_impl_def accept_def migrateId_def protocol_matches_def
  postSetup_def postMessage_def waitRecvSetup_def waitRecvSetup_pass_def waitForCMEvent_def
  waitForCMEvent_pass_def checkEvents_def checkDisconnected_def doCMEvent_def checkCQ_def
  recvMessage_def recvSetup_def own_cpd_def
  example_env_def example_globals_def cm_tick_def setup_tick_def peer_setup_def peer_cpd_def
  quiet_tick_def new_conn_def setState_def emit_def release_def
  cleanup_def cleanup_steps_def free_def ack_completions_def rb_held_def empty_rb_def
  RDMA_PROTOCOL_MAGIC_def RDMA_PROTOCOL_VERSION_def SETUP_def FC_def IBV_WC_RECV_def
  IBV_WC_RECV_RDMA_WITH_IMM_def IBV_WC_SEND_def IBV_WC_RDMA_WRITE_def
  sizeof_RDMASetupPayload_def sizeof_RDMAFCPayload_def rp_clear_def zero_cpd_def zero_fc_def

lemma accept_example:
  "map_option fst (finishAccept example_globals example_env peer_cpd new_conn) = Some True"
  by (simp add: hs_defs Let_def)


lemma accept_mismatch_example:
  "map_option fst (finishAccept example_globals example_env (peer_cpd\<lparr>version := 2\<rparr>) new_conn)
     = Some False"
  by (simp add: hs_defs Let_def)

lemma run_steps_append:
  "run_steps (xs @ ys) s =
     (case run_steps xs s of
        None \<Rightarrow> None
      | Some (False, s1) \<Rightarrow> Some (False, s1)
      | Some (True, s1) \<Rightarrow> run_steps ys s1)"
  by (induction xs arbitrary: s) (auto split: option.splits bool.splits)

lemma run_steps_True_append:
  "run_steps (xs @ ys) s = Some (True, s') \<Longrightarrow>
     \<exists>s1. run_steps xs s = Some (True, s1) \<and> run_steps ys s1 = Some (True, s')"
  by (auto simp add: run_steps_append split: option.splits bool.splits)




lemma waitForCMEvent_depth:
  assumes "waitForCMEvent g expected w s = Some (ok, s')"
  shows "depth s' = depth s \<and> state s' = state s"
proof -
  let ?Q = "\<lambda>s (r::bool) s'. depth s' = depth s \<and> state s' = state s"
  have "?Q s ok s'"
  proof (rule run_loop_rule [OF assms [unfolded waitForCMEvent_def],
        where R = "\<lambda>s s'. depth s' = depth s \<and> state s' = state s" and Q = ?Q])
    fix t k s k1 s1
    assume "waitForCMEvent_pass g expected (fst w) t k s = Again k1 s1"
    then show "depth s1 = depth s \<and> state s1 = state s"
      by (auto simp add: waitForCMEvent_pass_def split: prod.splits bool.splits if_splits)
  next
    fix t k s r s1
    assume "waitForCMEvent_pass g expected (fst w) t k s = Done r s1"
    then show "depth s1 = depth s \<and> state s1 = state s"
      by (auto simp add: waitForCMEvent_pass_def split: prod.splits bool.splits if_splits
          dest: doCMEvent_depth)
  qed simp
  then show ?thesis .
qed

lemma waitRecvSetup_pass_core:
  assumes "waitRecvSetup_pass g start t k s = p" "p = Again k1 s1 \<or> p = Done r s1"
  shows "same_core s s1"
proof -
  obtain ok ev sa where c: "checkDisconnected t s = (ok, ev, sa)"
    by (cases "checkDisconnected t s") auto
  note a = same_core_checkDisconnected [OF c]
  show ?thesis
  proof (cases "ok \<and> established sa")
    case False
    with assms c have "s1 = sa"
      by (auto simp add: waitRecvSetup_pass_def split: if_splits bool.splits)
    with a show ?thesis by simp
  next
    case True
    with assms c obtain ok2 sb where q: "checkCQ True (polls t) sa = Some (ok2, sb)"
      by (auto simp add: waitRecvSetup_pass_def split: option.splits)
    note b = same_core_checkCQ [OF q]
    from assms c True q have "s1 = sb"
      by (auto simp add: waitRecvSetup_pass_def split: if_splits bool.splits)
    with a b show ?thesis by (blast intro: same_core_trans)
  qed
qed

lemma same_core_waitRecvSetup:
  assumes "waitRecvSetup g w s = Some (ok, s')"
  shows "same_core s s'"
proof (rule run_loop_rule [OF assms [unfolded waitRecvSetup_def],
      where R = same_core and Q = "\<lambda>s (r::bool) s'. same_core s s'"])
  fix t k s k1 s1
  assume "waitRecvSetup_pass g (fst w) t k s = Again k1 s1"
  then show "same_core s s1" by (rule waitRecvSetup_pass_core) simp
next
  fix t k s r s1
  assume "waitRecvSetup_pass g (fst w) t k s = Done r s1"
  then show "same_core s s1" by (rule waitRecvSetup_pass_core) simp
next
  fix a b c and r :: bool
  assume "same_core a b" "same_core b c"
  then show "same_core a c" by (rule same_core_trans)
qed

lemma same_core_postSetup: "postSetup ok base key s = (r, s') \<Longrightarrow> same_core s s'"
  by (auto simp add: postSetup_def Let_def postMessage_def same_core_def emit_def)

lemma run_steps_depth:
  assumes "\<forall>f \<in> set fs. \<forall>s ok s'. f s = Some (ok, s') \<longrightarrow> depth s' = depth s"
    and "run_steps fs s = Some (ok, s')"
  shows "depth s' = depth s"
  using assms
proof (induction fs arbitrary: s)
  case Nil
  then show ?case by simp
next
  case (Cons f fs)
  from Cons.prems(2) obtain ok1 s1 where f: "f s = Some (ok1, s1)"
    by (auto split: option.splits)
  with Cons.prems(1) have d: "depth s1 = depth s" by simp
  show ?case
  proof (cases ok1)
    case False
    with Cons.prems(2) f d show ?thesis by simp
  next
    case True
    with Cons.prems(2) f have "run_steps fs s1 = Some (ok, s')" by simp
    with Cons.IH Cons.prems(1) have "depth s' = depth s1" by simp
    with d show ?thesis by simp
  qed
qed

lemma depth_steps:
  "initVerbs env s = (ok, s') \<Longrightarrow> depth s' = depth s"
  "createQP env s = (ok, s') \<Longrightarrow> depth s' = depth s"
  "createBytesAvailableFD env s = (ok, s') \<Longrightarrow> depth s' = depth s"
  "postReceives b n s = (ok, s') \<Longrightarrow> depth s' = depth s"
  by (auto simp add: initVerbs_def createQP_def createBytesAvailableFD_def postReceives_def
      emit_def Let_def split: if_splits)

lemma depth_release [simp]: "depth (release r h s) = depth s"
  by (simp add: release_alt)

lemma depth_initBuffers: "initBuffers g env s = (ok, s') \<Longrightarrow> depth s' = depth s"
  by (auto simp add: initBuffers_def msgbuf_resize_def Let_def
      split: if_splits prod.splits bool.splits)

lemma depth_accept: "accept g env s = Some (ok, s') \<Longrightarrow> depth s' = depth s"
  by (auto simp add: accept_def Let_def split: if_splits dest: waitForCMEvent_depth)

lemma depth_setState [simp]: "depth (setState st s) = depth s"
  by (simp add: setState_def emit_def)

lemma finishAccept_True:
  assumes "finishAccept g env d s = Some (True, s')"
  shows "protocol_matches d" and "2 \<le> sint (cpd_depth d)" and "depth s' = cpd_depth d"
    and "state s' = STATE_CONNECTED"
proof -
  let ?s0 = "(setState STATE_CONNECTING s)\<lparr>cm_id := True\<rparr>"
  let ?mid = "[\<lambda>s. Some (createNotifier env s), \<lambda>s. Some (createEventChannel env s),
      \<lambda>s. Some (migrateId env s)]"
  let ?post = "[\<lambda>s. Some (initVerbs env s), \<lambda>s. Some (createQP env s),
      \<lambda>s. Some (createBytesAvailableFD env s), \<lambda>s. Some (initBuffers g env s),
      \<lambda>s. Some (postReceives (answers env Ibv_post_recv_initial) (depth s) s)]"
  have split: "accept_steps_reject g env d =
      [\<lambda>s. Some (protocol_matches d, s)] @ ?mid
      @ [\<lambda>s. Some (initProtocol (cpd_depth d) s)] @ ?post"
    by (simp add: accept_steps_reject_def)
  from assms obtain s1 s2
    where r1: "run_steps (accept_steps_reject g env d) ?s0 = Some (True, s1)"
      and r2: "run_steps (accept_steps g env) s1 = Some (True, s2)"
      and s': "s' = setState STATE_CONNECTED s2"
    by (auto simp add: finishAccept_def Let_def split: option.splits bool.splits)
  from run_steps_True_append [OF r1 [unfolded split]] obtain sa
    where a1: "run_steps [\<lambda>s. Some (protocol_matches d, s)] ?s0 = Some (True, sa)"
      and a2: "run_steps (?mid @ [\<lambda>s. Some (initProtocol (cpd_depth d) s)] @ ?post) sa
                 = Some (True, s1)"
    by blast
  from a1 show "protocol_matches d"
    by (auto split: bool.splits)
  from run_steps_True_append [OF a2] obtain sb
    where b2: "run_steps ([\<lambda>s. Some (initProtocol (cpd_depth d) s)] @ ?post) sb
                 = Some (True, s1)"
    by blast
  from run_steps_True_append [OF b2] obtain sc
    where c1: "run_steps [\<lambda>s. Some (initProtocol (cpd_depth d) s)] sb = Some (True, sc)"
      and c2: "run_steps ?post sc = Some (True, s1)"
    by blast
  from c1 have ip: "initProtocol (cpd_depth d) sb = (True, sc)"
    by (auto split: bool.splits prod.splits)
  then show "2 \<le> sint (cpd_depth d)"
    by (auto simp add: initProtocol_def split: if_splits)
  from ip have dc: "depth sc = cpd_depth d"
    by (auto simp add: initProtocol_def split: if_splits)
  have "depth s1 = depth sc"
    by (rule run_steps_depth [OF _ c2])
      (auto dest: depth_steps depth_initBuffers)
  moreover have "depth s2 = depth s1"
    by (rule run_steps_depth [OF _ r2])
      (auto simp add: accept_steps_def same_core_def
        dest: depth_accept same_core_waitRecvSetup same_core_postSetup)
  ultimately show "depth s' = cpd_depth d"
    by (simp add: s' dc)
  show "state s' = STATE_CONNECTED"
    by (simp add: s')
qed

lemma trace_cleanup: "x \<in> set (trace s) \<Longrightarrow> x \<in> set (trace (cleanup s))"
  by (simp add: cleanup_def cleanup_steps_def free_def release_alt ack_completions_def emit_def)

lemma trace_close: "x \<in> set (trace s) \<Longrightarrow> x \<in> set (trace (close s))"
  by (auto simp add: close_def close_impl_def setState_def disconnect_def emit_def
      intro!: trace_cleanup)

lemma finishAccept_reject:
  assumes "run_steps (accept_steps_reject g env d) ((setState STATE_CONNECTING s)\<lparr>cm_id := True\<rparr>)
             = Some (False, s1)"
  shows "finishAccept g env d s = Some (False, close (emit Rdma_reject s1))"
    and "state (close (emit Rdma_reject s1)) = STATE_CLOSED"
    and "Rdma_reject \<in> set (trace (close (emit Rdma_reject s1)))"
  using assms by (simp_all add: finishAccept_def Let_def reject_def trace_close)

lemma run_steps_total:
  assumes "\<forall>f \<in> set fs. \<forall>s. f s \<noteq> None"
  shows "\<exists>ok s1. run_steps fs s = Some (ok, s1)"
  using assms
proof (induction fs arbitrary: s)
  case Nil
  then show ?case by auto
next
  case (Cons f fs)
  then obtain ok s1 where f: "f s = Some (ok, s1)" by fastforce
  show ?case
  proof (cases ok)
    case True
    with f Cons show ?thesis by simp
  next
    case False
    with f show ?thesis by auto
  qed
qed

lemma steps_reject_total:
  "\<exists>ok s1. run_steps (accept_steps_reject g env d) s = Some (ok, s1)"
  by (rule run_steps_total) (simp add: accept_steps_reject_def)

lemma steps_reject_low_depth:
  assumes "sint (cpd_depth d) < 2"
  shows "\<exists>s1. run_steps (accept_steps_reject g env d) s = Some (False, s1)"
proof -
  from steps_reject_total obtain ok s1
    where r: "run_steps (accept_steps_reject g env d) s = Some (ok, s1)" by blast
  show ?thesis
  proof (cases ok)
    case False
    with r show ?thesis by auto
  next
    case True
    let ?mid = "[\<lambda>s. Some (createNotifier env s), \<lambda>s. Some (createEventChannel env s),
      \<lambda>s. Some (migrateId env s)]"
    let ?post = "[\<lambda>s. Some (initVerbs env s), \<lambda>s. Some (createQP env s),
      \<lambda>s. Some (createBytesAvailableFD env s), \<lambda>s. Some (initBuffers g env s),
      \<lambda>s. Some (postReceives (answers env Ibv_post_recv_initial) (depth s) s)]"
    have split: "accept_steps_reject g env d =
      ([\<lambda>s. Some (protocol_matches d, s)] @ ?mid)
      @ [\<lambda>s. Some (initProtocol (cpd_depth d) s)] @ ?post"
      by (simp add: accept_steps_reject_def)
    from r True have r': "run_steps (accept_steps_reject g env d) s = Some (True, s1)"
      by simp
    from run_steps_True_append [OF r' [unfolded split]]
    obtain sb where "run_steps ([\<lambda>s. Some (initProtocol (cpd_depth d) s)] @ ?post) sb
                 = Some (True, s1)"
      by blast
    from run_steps_True_append [OF this] obtain sc
      where "run_steps [\<lambda>s. Some (initProtocol (cpd_depth d) s)] sb = Some (True, sc)"
      by blast
    then have "initProtocol (cpd_depth d) sb = (True, sc)"
      by (auto split: bool.splits prod.splits)
    with assms show ?thesis
      by (simp add: initProtocol_def)
  qed
qed



lemma cpd_setState [simp]: "cpd (setState st s) = cpd s"
  by (simp add: setState_def emit_def)









text \<open>
  C6, as the code has it. The acceptor takes the proposed depth as it is: after a successful
  \<^verbatim>\<open>_finishAccept\<close> the connection's depth is the proposed one, which is at least 2. A proposed
  depth below 2 is not raised to 2: \<^verbatim>\<open>_initProtocol\<close> refuses it, the request is rejected and
  the connection is closed.
\<close>

theorem accept_depth:
  "(finishAccept g env d s = Some (True, s') \<longrightarrow>
      depth s' = cpd_depth d \<and> 2 \<le> sint (cpd_depth d) \<and> state s' = STATE_CONNECTED)
   \<and> (sint (cpd_depth d) < 2 \<longrightarrow>
        (\<exists>s1. finishAccept g env d s = Some (False, s1) \<and> state s1 = STATE_CLOSED
              \<and> Rdma_reject \<in> set (trace s1)))"
proof (intro conjI impI)
  assume a: "finishAccept g env d s = Some (True, s')"
  from finishAccept_True [OF a]
  show "depth s' = cpd_depth d" "2 \<le> sint (cpd_depth d)" "state s' = STATE_CONNECTED"
    by simp_all
next
  assume "sint (cpd_depth d) < 2"
  from steps_reject_low_depth [OF this] obtain s1
    where "run_steps (accept_steps_reject g env d) ((setState STATE_CONNECTING s)\<lparr>cm_id := True\<rparr>)
             = Some (False, s1)"
    by blast
  from finishAccept_reject [OF this]
  show "\<exists>s1. finishAccept g env d s = Some (False, s1) \<and> state s1 = STATE_CLOSED
              \<and> Rdma_reject \<in> set (trace s1)"
    by blast
qed

theorem accept_depth_witness:
  "(\<exists>s'. finishAccept example_globals example_env peer_cpd new_conn = Some (True, s')
        \<and> depth s' = 16 \<and> state s' = STATE_CONNECTED)
   \<and> sint (cpd_depth (peer_cpd\<lparr>cpd_depth := 1\<rparr>)) < 2
   \<and> (\<exists>s1. finishAccept example_globals example_env (peer_cpd\<lparr>cpd_depth := 1\<rparr>) new_conn
              = Some (False, s1)
        \<and> state s1 = STATE_CLOSED \<and> Rdma_reject \<in> set (trace s1))"
proof -
  from map_option_fst_Some [OF accept_example] obtain s'
    where 1: "finishAccept example_globals example_env peer_cpd new_conn = Some (True, s')"
    by blast
  from accept_depth [THEN conjunct1, rule_format, OF 1]
  have a: "depth s' = 16 \<and> state s' = STATE_CONNECTED"
    by (simp add: peer_cpd_def)
  have low: "sint (cpd_depth (peer_cpd\<lparr>cpd_depth := 1\<rparr>)) < 2"
    by simp
  from accept_depth [THEN conjunct2, rule_format, OF low] 1 a low
  show ?thesis by blast
qed

text \<open>
  C6, as the spec words it, does not hold: an acceptor offered a depth of 1 does not go on with
  a depth of 2, \<^verbatim>\<open>_finishAccept\<close> returns false.
\<close>

theorem accept_clamps_depth_counterexample:
  "map_option fst (finishAccept example_globals example_env (peer_cpd\<lparr>cpd_depth := 1\<rparr>) new_conn)
     = Some False"
  by (simp add: hs_defs Let_def)

end
